theory Spec2Isabelle
  imports Main "HOL-Library.Word"
begin

section \<open>Constants of board.h and game.h\<close>

text \<open>
  Every value the C code keeps in an \<^verbatim>\<open>unsigned char\<close> is an 8-bit word: addition and
  subtraction wrap around modulo 256, as the conversion of an \<^verbatim>\<open>int\<close> expression to an
  \<^verbatim>\<open>unsigned char\<close> parameter does.
\<close>

type_synonym uchar = "8 word"

abbreviation (input) EMPTY_INTERSECTION :: uchar where "EMPTY_INTERSECTION \<equiv> 0"
abbreviation (input) BLACK_STONE :: uchar where "BLACK_STONE \<equiv> 1"
abbreviation (input) WHITE_STONE :: uchar where "WHITE_STONE \<equiv> 2"
abbreviation (input) BOARD_SIZE_15 :: uchar where "BOARD_SIZE_15 \<equiv> 15"
abbreviation (input) BOARD_SIZE_17 :: uchar where "BOARD_SIZE_17 \<equiv> 17"
abbreviation (input) BOARD_SIZE_19 :: uchar where "BOARD_SIZE_19 \<equiv> 19"

abbreviation (input) GAME_FREESTYLE :: uchar where "GAME_FREESTYLE \<equiv> 0"
abbreviation (input) GAME_RENJU :: uchar where "GAME_RENJU \<equiv> 1"
abbreviation (input) GAME_STATE_PLAYING :: uchar where "GAME_STATE_PLAYING \<equiv> 0"
abbreviation (input) GAME_STATE_FORBIDDEN :: uchar where "GAME_STATE_FORBIDDEN \<equiv> 1"
abbreviation (input) GAME_STATE_STOPPED :: uchar where "GAME_STATE_STOPPED \<equiv> 2"
abbreviation (input) GAME_STATE_FINISHED :: uchar where "GAME_STATE_FINISHED \<equiv> 3"

abbreviation (input) INITIAL_NUM_MOVES :: nat where "INITIAL_NUM_MOVES \<equiv> 16"
abbreviation (input) MAX_STRING_LENGTH :: nat where "MAX_STRING_LENGTH \<equiv> 3"
abbreviation (input) NEEDED_CONNECTIONS :: nat where "NEEDED_CONNECTIONS \<equiv> 5"
abbreviation (input) ALLOWED_OPEN_FOURS :: nat where "ALLOWED_OPEN_FOURS \<equiv> 1"
abbreviation (input) LOWEST_TWO_DIGITS :: uchar where "LOWEST_TWO_DIGITS \<equiv> 10"

text \<open>
  The ways a call can fail to return a value. The first five are the exit and return
  codes the sources name (their numbers, from error-codes.h, play no role). The last two
  are not codes of the program; they mark what C leaves undefined: \<open>OUT_OF_RANGE\<close> an
  array access outside the storage the program owns, \<open>UNINITIALIZED\<close> the use of a
  variable that was never assigned.
\<close>

datatype error =
    BOARD_SIZE_ERR
  | STONE_TYPE_ERR
  | COORDINATE_ERR
  | FORMAL_COORDINATE_ERR
  | FILE_INPUT_ERR
  | OUT_OF_RANGE
  | UNINITIALIZED

section \<open>board.c\<close>

text \<open>
  \<^verbatim>\<open>typedef struct { unsigned char size; unsigned char* grid; } board;\<close>
  The grid is the flat block of \<open>size * size\<close> bytes; the code views it as rows of
  \<open>size\<close> bytes and reads \<^verbatim>\<open>grid[y][x]\<close>, the byte at \<open>y * size + x\<close>. With \<open>x\<close> not
  below \<open>size\<close> that byte can still lie in the block: it is then a cell of a later row.
\<close>

record board =
  size_b :: uchar
  grid :: "uchar list"

definition board_create :: "uchar \<Rightarrow> error + board" where
  "board_create sz =
     (if sz \<noteq> BOARD_SIZE_15 \<and> sz \<noteq> BOARD_SIZE_17 \<and> sz \<noteq> BOARD_SIZE_19
      then Inl BOARD_SIZE_ERR
      else Inr \<lparr>size_b = sz, grid = replicate (unat sz * unat sz) EMPTY_INTERSECTION\<rparr>)"

text \<open>
  \<^verbatim>\<open>board_get\<close> checks nothing: \<^verbatim>\<open>return grid[y][x];\<close>. When the byte at
  \<open>y * size + x\<close> lies in the block of the grid the model returns it. Behind the block,
  what the C program reads is not a cell of the board and the program does not determine
  it; the model takes it from a parameter \<open>ob\<close>, the surroundings of the grid:
  \<open>ob x y = None\<close> when the read is fatal or undefined, which the model reports as
  \<open>OUT_OF_RANGE\<close>, and \<open>ob x y = Some v\<close> when the byte \<open>v\<close> is what the read finds. A
  statement proved for every \<open>ob\<close> holds whatever lies around the grid; \<open>no_outside\<close>
  is the strict reading, where every read behind the block is an error.
\<close>

type_synonym outside = "uchar \<Rightarrow> uchar \<Rightarrow> uchar option"

definition no_outside :: outside where
  "no_outside x y = None"

definition empty_outside :: outside where
  "empty_outside x y = Some EMPTY_INTERSECTION"

definition cell_index :: "board \<Rightarrow> uchar \<Rightarrow> uchar \<Rightarrow> nat" where
  "cell_index b x y = unat y * unat (size_b b) + unat x"

definition board_get :: "outside \<Rightarrow> board \<Rightarrow> uchar \<Rightarrow> uchar \<Rightarrow> error + uchar" where
  "board_get ob b x y =
     (if cell_index b x y < unat (size_b b) * unat (size_b b)
      then Inr (grid b ! cell_index b x y)
      else case ob x y of None \<Rightarrow> Inl OUT_OF_RANGE | Some v \<Rightarrow> Inr v)"

text \<open>
  \<^verbatim>\<open>board_set\<close> exits on a stone that is neither black nor white and then writes
  \<^verbatim>\<open>grid[y][x]\<close> unchecked, the byte at \<open>y * size + x\<close>. A write behind the block
  changes memory the model does not describe, so it is \<open>OUT_OF_RANGE\<close> whatever the
  surroundings.
\<close>

definition board_set :: "board \<Rightarrow> uchar \<Rightarrow> uchar \<Rightarrow> uchar \<Rightarrow> error + board" where
  "board_set b x y st =
     (if st \<noteq> BLACK_STONE \<and> st \<noteq> WHITE_STONE then Inl STONE_TYPE_ERR
      else if cell_index b x y < unat (size_b b) * unat (size_b b)
        then Inr (b\<lparr>grid := (grid b)[cell_index b x y := st]\<rparr>)
      else Inl OUT_OF_RANGE)"

text \<open>
  \<^verbatim>\<open>board_is_full\<close>: the two nested loops over \<^verbatim>\<open>grid[i][j]\<close>, false at the first
  empty intersection.
\<close>

definition board_is_full :: "board \<Rightarrow> bool" where
  "board_is_full b =
     list_all (\<lambda>i. list_all (\<lambda>j. grid b ! (i * unat (size_b b) + j) \<noteq> EMPTY_INTERSECTION)
                 [0..<unat (size_b b)])
       [0..<unat (size_b b)]"

section \<open>game.c: the game and its rule checks\<close>

record move =
  x_m :: uchar
  y_m :: uchar
  stone_m :: uchar

text \<open>
  \<^verbatim>\<open>moves\<close> holds the \<^verbatim>\<open>moves_count\<close> entries of the C array that have been written;
  \<^verbatim>\<open>moves_capacity\<close> is the number of entries allocated.
\<close>

record game =
  board :: board
  type :: uchar
  stone :: uchar
  state :: uchar
  winner :: uchar
  moves :: "move list"
  moves_count :: nat
  moves_capacity :: nat

definition game_create :: "uchar \<Rightarrow> uchar \<Rightarrow> error + game" where
  "game_create board_size game_type =
     (case board_create board_size of
        Inl e \<Rightarrow> Inl e
      | Inr b \<Rightarrow>
          Inr \<lparr>board = b, type = game_type, stone = BLACK_STONE,
               state = GAME_STATE_PLAYING, winner = EMPTY_INTERSECTION,
               moves = [], moves_count = 0, moves_capacity = INITIAL_NUM_MOVES\<rparr>)"

text \<open>
  What a counting loop of game.c reports: it returned true (\<open>Found\<close>), or it ran to the
  end of its line and left the counter \<^verbatim>\<open>connections\<close> at the given value.
\<close>

datatype scan = Found | Ended nat

text \<open>
  The loop of \<^verbatim>\<open>verticalWin\<close>, and the first loop of \<^verbatim>\<open>overline\<close>, which differs only
  in the count it looks for:
  \<^verbatim>\<open>for (int i = 0; i < g->board->size; i++) {
      if (board_get(g->board, x, i) == g->stone) {
          connections++;
          if (connections == NEEDED_CONNECTIONS) return true;
      } else connections = 0;
  }\<close>
\<close>

function vertical_loop ::
  "outside \<Rightarrow> game \<Rightarrow> uchar \<Rightarrow> nat \<Rightarrow> nat \<Rightarrow> nat \<Rightarrow> error + scan" where
  "vertical_loop ob g x needed i connections =
     (if i < unat (size_b (board g)) then
        (case board_get ob (board g) x (of_nat i) of
           Inl e \<Rightarrow> Inl e
         | Inr v \<Rightarrow>
             if v = stone g then
               (if connections + 1 = needed then Inr Found
                else vertical_loop ob g x needed (i + 1) (connections + 1))
             else vertical_loop ob g x needed (i + 1) 0)
      else Inr (Ended connections))"
  by pat_completeness auto
termination
  by (relation "measure (\<lambda>(ob, g, x, needed, i, c). unat (size_b (board g)) - i)") auto

function horizontal_loop ::
  "outside \<Rightarrow> game \<Rightarrow> uchar \<Rightarrow> nat \<Rightarrow> nat \<Rightarrow> nat \<Rightarrow> error + scan" where
  "horizontal_loop ob g y needed i connections =
     (if i < unat (size_b (board g)) then
        (case board_get ob (board g) (of_nat i) y of
           Inl e \<Rightarrow> Inl e
         | Inr v \<Rightarrow>
             if v = stone g then
               (if connections + 1 = needed then Inr Found
                else horizontal_loop ob g y needed (i + 1) (connections + 1))
             else horizontal_loop ob g y needed (i + 1) 0)
      else Inr (Ended connections))"
  by pat_completeness auto
termination
  by (relation "measure (\<lambda>(ob, g, y, needed, i, c). unat (size_b (board g)) - i)") auto

text \<open>
  The walk to the start of a diagonal, on \<^verbatim>\<open>unsigned char\<close> coordinates:
  \<^verbatim>\<open>while (y > 0 && x > 0) { y--; x--; }\<close> and
  \<^verbatim>\<open>while (y < g->board->size && x > 0) { y++; x--; }\<close>. The second one stops at
  \<open>y = size\<close>, one row below the grid, when the diagonal leaves through the bottom edge.
\<close>

function diagonal_down_start :: "uchar \<Rightarrow> uchar \<Rightarrow> uchar \<times> uchar" where
  "diagonal_down_start x y =
     (if y > 0 \<and> x > 0 then diagonal_down_start (x - 1) (y - 1) else (x, y))"
  by pat_completeness auto
termination
  by (relation "measure (\<lambda>(x, y). unat x)") (auto simp: measure_unat)

function diagonal_up_start :: "uchar \<Rightarrow> uchar \<Rightarrow> uchar \<Rightarrow> uchar \<times> uchar" where
  "diagonal_up_start sz x y =
     (if y < sz \<and> x > 0 then diagonal_up_start sz (x - 1) (y + 1) else (x, y))"
  by pat_completeness auto
termination
  by (relation "measure (\<lambda>(sz, x, y). unat x)") (auto simp: measure_unat)

lemma unat_succ: "(x::uchar) < s \<Longrightarrow> unat (x + 1) = unat x + 1"
  by unat_arith

text \<open>
  The loop of \<^verbatim>\<open>diagonalDownWin\<close>, and the third loop of \<^verbatim>\<open>overline\<close>:
  \<^verbatim>\<open>while (y < g->board->size && x < g->board->size) { ...; y++; x++; }\<close>
\<close>

function diagonal_down_loop ::
  "outside \<Rightarrow> game \<Rightarrow> nat \<Rightarrow> uchar \<Rightarrow> uchar \<Rightarrow> nat \<Rightarrow> error + scan" where
  "diagonal_down_loop ob g needed x y connections =
     (if y < size_b (board g) \<and> x < size_b (board g) then
        (case board_get ob (board g) x y of
           Inl e \<Rightarrow> Inl e
         | Inr v \<Rightarrow>
             if v = stone g then
               (if connections + 1 = needed then Inr Found
                else diagonal_down_loop ob g needed (x + 1) (y + 1) (connections + 1))
             else diagonal_down_loop ob g needed (x + 1) (y + 1) 0)
      else Inr (Ended connections))"
  by pat_completeness auto
termination
  by (relation "measure (\<lambda>(ob, g, needed, x, y, c). unat (size_b (board g)) - unat x)")
     (auto simp: unat_succ word_less_nat_alt)

text \<open>
  The loop of \<^verbatim>\<open>diagonalUpWin\<close>, and the fourth loop of \<^verbatim>\<open>overline\<close>:
  \<^verbatim>\<open>while (y >= 0 && x < g->board->size) { ...; y--; x++; }\<close>
  where \<^verbatim>\<open>y\<close> is an \<^verbatim>\<open>unsigned char\<close>: \<^verbatim>\<open>y >= 0\<close> always holds and \<^verbatim>\<open>y--\<close> at 0
  gives 255.
\<close>

function diagonal_up_loop ::
  "outside \<Rightarrow> game \<Rightarrow> nat \<Rightarrow> uchar \<Rightarrow> uchar \<Rightarrow> nat \<Rightarrow> error + scan" where
  "diagonal_up_loop ob g needed x y connections =
     (if y \<ge> 0 \<and> x < size_b (board g) then
        (case board_get ob (board g) x y of
           Inl e \<Rightarrow> Inl e
         | Inr v \<Rightarrow>
             if v = stone g then
               (if connections + 1 = needed then Inr Found
                else diagonal_up_loop ob g needed (x + 1) (y - 1) (connections + 1))
             else diagonal_up_loop ob g needed (x + 1) (y - 1) 0)
      else Inr (Ended connections))"
  by pat_completeness auto
termination
  by (relation "measure (\<lambda>(ob, g, needed, x, y, c). unat (size_b (board g)) - unat x)")
     (auto simp: unat_succ word_less_nat_alt)

definition found :: "error + scan \<Rightarrow> error + bool" where
  "found r = (case r of Inl e \<Rightarrow> Inl e | Inr Found \<Rightarrow> Inr True | Inr (Ended c) \<Rightarrow> Inr False)"

definition verticalWin :: "outside \<Rightarrow> game \<Rightarrow> uchar \<Rightarrow> error + bool" where
  "verticalWin ob g x = found (vertical_loop ob g x NEEDED_CONNECTIONS 0 0)"

definition horizontalWin :: "outside \<Rightarrow> game \<Rightarrow> uchar \<Rightarrow> error + bool" where
  "horizontalWin ob g y = found (horizontal_loop ob g y NEEDED_CONNECTIONS 0 0)"

definition diagonalDownWin :: "outside \<Rightarrow> game \<Rightarrow> uchar \<Rightarrow> uchar \<Rightarrow> error + bool" where
  "diagonalDownWin ob g x y =
     (case diagonal_down_start x y of
        (x0, y0) \<Rightarrow> found (diagonal_down_loop ob g NEEDED_CONNECTIONS x0 y0 0))"

definition diagonalUpWin :: "outside \<Rightarrow> game \<Rightarrow> uchar \<Rightarrow> uchar \<Rightarrow> error + bool" where
  "diagonalUpWin ob g x y =
     (case diagonal_up_start (size_b (board g)) x y of
        (x0, y0) \<Rightarrow> found (diagonal_up_loop ob g NEEDED_CONNECTIONS x0 y0 0))"

text \<open>
  \<^verbatim>\<open>a || b\<close> on calls that may fail: \<open>b\<close> is evaluated only when \<open>a\<close> returned false.
\<close>

definition orelse :: "error + bool \<Rightarrow> error + bool \<Rightarrow> error + bool" where
  "orelse a b = (case a of Inl e \<Rightarrow> Inl e | Inr r \<Rightarrow> if r then Inr True else b)"

text \<open>
  The condition that \<^verbatim>\<open>doubleOpenFours\<close> and \<^verbatim>\<open>game_place_stone\<close> both test:
  \<^verbatim>\<open>verticalWin(g, x) || horizontalWin(g, y) || diagonalDownWin(g, x, y) ||
  diagonalUpWin(g, x, y)\<close>
\<close>

definition line_win :: "outside \<Rightarrow> game \<Rightarrow> uchar \<Rightarrow> uchar \<Rightarrow> error + bool" where
  "line_win ob g x y =
     orelse (verticalWin ob g x)
       (orelse (horizontalWin ob g y)
          (orelse (diagonalDownWin ob g x y) (diagonalUpWin ob g x y)))"

text \<open>
  The test of the two cells around a run of four in \<^verbatim>\<open>doubleOpenFours\<close>:
  \<^verbatim>\<open>board_get(b, xa, ya) == EMPTY_INTERSECTION && board_get(b, xb, yb) == EMPTY_INTERSECTION\<close>;
  the second cell is read only when the first one is empty.
\<close>

definition both_empty ::
  "outside \<Rightarrow> board \<Rightarrow> uchar \<Rightarrow> uchar \<Rightarrow> uchar \<Rightarrow> uchar \<Rightarrow> error + bool" where
  "both_empty ob b xa ya xb yb =
     (case board_get ob b xa ya of
        Inl e \<Rightarrow> Inl e
      | Inr a \<Rightarrow>
          if a = EMPTY_INTERSECTION then
            (case board_get ob b xb yb of
               Inl e \<Rightarrow> Inl e
             | Inr c \<Rightarrow> Inr (c = EMPTY_INTERSECTION))
          else Inr False)"

text \<open>
  The four loops of \<^verbatim>\<open>doubleOpenFours\<close>. Each one counts as the win loops do and, when
  the counter reaches \<^verbatim>\<open>NEEDED_CONNECTIONS - 1\<close>, tests two cells and increments
  \<^verbatim>\<open>openFours\<close>. The cells are the ones the source names: in the vertical loop
  \<^verbatim>\<open>(x + 1, i)\<close> and \<^verbatim>\<open>(x - connections, i)\<close>, in the horizontal loop \<^verbatim>\<open>(j, y + 1)\<close> and
  \<^verbatim>\<open>(j, y - connections)\<close>, with the sums converted to \<^verbatim>\<open>unsigned char\<close>.
\<close>

function fours_vertical_loop ::
  "outside \<Rightarrow> game \<Rightarrow> uchar \<Rightarrow> nat \<Rightarrow> nat \<Rightarrow> nat \<Rightarrow> error + nat" where
  "fours_vertical_loop ob g x i connections openFours =
     (if i < unat (size_b (board g)) then
        (case board_get ob (board g) x (of_nat i) of
           Inl e \<Rightarrow> Inl e
         | Inr v \<Rightarrow>
             if v = stone g then
               (if connections + 1 = NEEDED_CONNECTIONS - 1 then
                  (case both_empty ob (board g) (x + 1) (of_nat i)
                          (x - of_nat (connections + 1)) (of_nat i) of
                     Inl e \<Rightarrow> Inl e
                   | Inr opn \<Rightarrow>
                       fours_vertical_loop ob g x (i + 1) (connections + 1)
                         (if opn then openFours + 1 else openFours))
                else fours_vertical_loop ob g x (i + 1) (connections + 1) openFours)
             else fours_vertical_loop ob g x (i + 1) 0 openFours)
      else Inr openFours)"
  by pat_completeness auto
termination
  by (relation "measure (\<lambda>(ob, g, x, i, c, n). unat (size_b (board g)) - i)") auto

function fours_horizontal_loop ::
  "outside \<Rightarrow> game \<Rightarrow> uchar \<Rightarrow> nat \<Rightarrow> nat \<Rightarrow> nat \<Rightarrow> error + nat" where
  "fours_horizontal_loop ob g y j connections openFours =
     (if j < unat (size_b (board g)) then
        (case board_get ob (board g) (of_nat j) y of
           Inl e \<Rightarrow> Inl e
         | Inr v \<Rightarrow>
             if v = stone g then
               (if connections + 1 = NEEDED_CONNECTIONS - 1 then
                  (case both_empty ob (board g) (of_nat j) (y + 1)
                          (of_nat j) (y - of_nat (connections + 1)) of
                     Inl e \<Rightarrow> Inl e
                   | Inr opn \<Rightarrow>
                       fours_horizontal_loop ob g y (j + 1) (connections + 1)
                         (if opn then openFours + 1 else openFours))
                else fours_horizontal_loop ob g y (j + 1) (connections + 1) openFours)
             else fours_horizontal_loop ob g y (j + 1) 0 openFours)
      else Inr openFours)"
  by pat_completeness auto
termination
  by (relation "measure (\<lambda>(ob, g, y, j, c, n). unat (size_b (board g)) - j)") auto

function fours_diagonal_down_loop ::
  "outside \<Rightarrow> game \<Rightarrow> uchar \<Rightarrow> uchar \<Rightarrow> nat \<Rightarrow> nat \<Rightarrow> error + nat" where
  "fours_diagonal_down_loop ob g boardX boardY connections openFours =
     (if boardY < size_b (board g) \<and> boardX < size_b (board g) then
        (case board_get ob (board g) boardX boardY of
           Inl e \<Rightarrow> Inl e
         | Inr v \<Rightarrow>
             if v = stone g then
               (if connections + 1 = NEEDED_CONNECTIONS - 1 then
                  (case both_empty ob (board g) (boardX + 1) (boardY + 1)
                          (boardX - of_nat (connections + 1))
                          (boardY - of_nat (connections + 1)) of
                     Inl e \<Rightarrow> Inl e
                   | Inr opn \<Rightarrow>
                       fours_diagonal_down_loop ob g (boardX + 1) (boardY + 1)
                         (connections + 1) (if opn then openFours + 1 else openFours))
                else fours_diagonal_down_loop ob g (boardX + 1) (boardY + 1)
                       (connections + 1) openFours)
             else fours_diagonal_down_loop ob g (boardX + 1) (boardY + 1) 0 openFours)
      else Inr openFours)"
  by pat_completeness auto
termination
  by (relation "measure (\<lambda>(ob, g, x, y, c, n). unat (size_b (board g)) - unat x)")
     (auto simp: unat_succ word_less_nat_alt)

function fours_diagonal_up_loop ::
  "outside \<Rightarrow> game \<Rightarrow> uchar \<Rightarrow> uchar \<Rightarrow> nat \<Rightarrow> nat \<Rightarrow> error + nat" where
  "fours_diagonal_up_loop ob g boardX boardY connections openFours =
     (if boardY \<ge> 0 \<and> boardX < size_b (board g) then
        (case board_get ob (board g) boardX boardY of
           Inl e \<Rightarrow> Inl e
         | Inr v \<Rightarrow>
             if v = stone g then
               (if connections + 1 = NEEDED_CONNECTIONS - 1 then
                  (case both_empty ob (board g) (boardX + 1) (boardY - 1)
                          (boardX - of_nat (connections + 1))
                          (boardY + of_nat (connections + 1)) of
                     Inl e \<Rightarrow> Inl e
                   | Inr opn \<Rightarrow>
                       fours_diagonal_up_loop ob g (boardX + 1) (boardY - 1)
                         (connections + 1) (if opn then openFours + 1 else openFours))
                else fours_diagonal_up_loop ob g (boardX + 1) (boardY - 1)
                       (connections + 1) openFours)
             else fours_diagonal_up_loop ob g (boardX + 1) (boardY - 1) 0 openFours)
      else Inr openFours)"
  by pat_completeness auto
termination
  by (relation "measure (\<lambda>(ob, g, x, y, c, n). unat (size_b (board g)) - unat x)")
     (auto simp: unat_succ word_less_nat_alt)

text \<open>
  The number \<^verbatim>\<open>openFours\<close> that \<^verbatim>\<open>doubleOpenFours\<close> has counted when its four loops
  are done; \<^verbatim>\<open>connections\<close> is set to 0 before each loop.
\<close>

definition open_fours :: "outside \<Rightarrow> game \<Rightarrow> uchar \<Rightarrow> uchar \<Rightarrow> error + nat" where
  "open_fours ob g x y =
     (case fours_vertical_loop ob g x 0 0 0 of
        Inl e \<Rightarrow> Inl e
      | Inr n1 \<Rightarrow>
     (case fours_horizontal_loop ob g y 0 0 n1 of
        Inl e \<Rightarrow> Inl e
      | Inr n2 \<Rightarrow>
     (case diagonal_down_start x y of (xd, yd) \<Rightarrow>
     (case fours_diagonal_down_loop ob g xd yd 0 n2 of
        Inl e \<Rightarrow> Inl e
      | Inr n3 \<Rightarrow>
     (case diagonal_up_start (size_b (board g)) x y of (xu, yu) \<Rightarrow>
        fours_diagonal_up_loop ob g xu yu 0 n3)))))"

definition doubleOpenFours :: "outside \<Rightarrow> game \<Rightarrow> uchar \<Rightarrow> uchar \<Rightarrow> error + game" where
  "doubleOpenFours ob g x y =
     (case line_win ob g x y of
        Inl e \<Rightarrow> Inl e
      | Inr won \<Rightarrow>
          if won then Inr (g\<lparr>winner := stone g, state := GAME_STATE_FINISHED\<rparr>)
          else
            (case open_fours ob g x y of
               Inl e \<Rightarrow> Inl e
             | Inr openFours \<Rightarrow>
                 if openFours > ALLOWED_OPEN_FOURS
                 then Inr (g\<lparr>state := GAME_STATE_FORBIDDEN, winner := WHITE_STONE\<rparr>)
                 else Inr g))"

text \<open>
  \<^verbatim>\<open>overline\<close>: the four loops with \<^verbatim>\<open>NEEDED_CONNECTIONS + 1\<close>. The source sets
  \<^verbatim>\<open>connections = 0\<close> before the horizontal loop only: the diagonal-down loop starts
  with the count the horizontal loop ended with, and the diagonal-up loop with the count
  of the diagonal-down loop.
\<close>

definition overline :: "outside \<Rightarrow> game \<Rightarrow> uchar \<Rightarrow> uchar \<Rightarrow> error + bool" where
  "overline ob g x y =
     (case vertical_loop ob g x (NEEDED_CONNECTIONS + 1) 0 0 of
        Inl e \<Rightarrow> Inl e
      | Inr Found \<Rightarrow> Inr True
      | Inr (Ended c1) \<Rightarrow>
     (case horizontal_loop ob g y (NEEDED_CONNECTIONS + 1) 0 0 of
        Inl e \<Rightarrow> Inl e
      | Inr Found \<Rightarrow> Inr True
      | Inr (Ended c2) \<Rightarrow>
     (case diagonal_down_start x y of (xd, yd) \<Rightarrow>
     (case diagonal_down_loop ob g (NEEDED_CONNECTIONS + 1) xd yd c2 of
        Inl e \<Rightarrow> Inl e
      | Inr Found \<Rightarrow> Inr True
      | Inr (Ended c3) \<Rightarrow>
     (case diagonal_up_start (size_b (board g)) x y of (xu, yu) \<Rightarrow>
        found (diagonal_up_loop ob g (NEEDED_CONNECTIONS + 1) xu yu c3))))))"

text \<open>
  \<^verbatim>\<open>game_place_stone\<close>, in the three parts of its body. First the move is recorded and
  the stone set on the board:
  \<^verbatim>\<open>move playerMove = { x, y, g->stone };
  if (g->moves_count >= g->moves_capacity) { g->moves_capacity *= 2; realloc ... }
  g->moves[g->moves_count++] = playerMove;
  board_set(g->board, playerMove.x, playerMove.y, playerMove.stone);\<close>
\<close>

definition put_stone :: "game \<Rightarrow> uchar \<Rightarrow> uchar \<Rightarrow> error + game" where
  "put_stone g x y =
     (let playerMove = \<lparr>x_m = x, y_m = y, stone_m = stone g\<rparr>;
          g1 = (if moves_count g \<ge> moves_capacity g
                then g\<lparr>moves_capacity := moves_capacity g * 2\<rparr> else g);
          g2 = g1\<lparr>moves := moves g1 @ [playerMove], moves_count := moves_count g1 + 1\<rparr>
      in case board_set (board g2) (x_m playerMove) (y_m playerMove) (stone_m playerMove) of
           Inl e \<Rightarrow> Inl e
         | Inr b \<Rightarrow> Inr (g2\<lparr>board := b\<rparr>))"

text \<open>
  Then the rules are applied to the game that holds the new stone: the branch for Black
  in Renju, and the chain win, full board, next player for every other placement.
\<close>

definition apply_rules :: "outside \<Rightarrow> game \<Rightarrow> uchar \<Rightarrow> uchar \<Rightarrow> error + game" where
  "apply_rules ob g x y =
     (if type g = GAME_RENJU \<and> stone g = BLACK_STONE then
        (case doubleOpenFours ob g x y of
           Inl e \<Rightarrow> Inl e
         | Inr g4 \<Rightarrow>
             if winner g4 = BLACK_STONE then
               (case overline ob g4 x y of
                  Inl e \<Rightarrow> Inl e
                | Inr over \<Rightarrow>
                    if over
                    then Inr (g4\<lparr>winner := WHITE_STONE, state := GAME_STATE_FORBIDDEN\<rparr>)
                    else Inr (g4\<lparr>stone := WHITE_STONE\<rparr>))
             else Inr (g4\<lparr>stone := WHITE_STONE\<rparr>))
      else
        (case line_win ob g x y of
           Inl e \<Rightarrow> Inl e
         | Inr won \<Rightarrow>
             if won then Inr (g\<lparr>winner := stone g, state := GAME_STATE_FINISHED\<rparr>)
             else if board_is_full (board g) then Inr (g\<lparr>state := GAME_STATE_FINISHED\<rparr>)
             else Inr (g\<lparr>stone := (if stone g = BLACK_STONE
                                     then WHITE_STONE else BLACK_STONE)\<rparr>)))"

text \<open>
  The whole function: false, and nothing changed, when the intersection is occupied;
  otherwise the two steps above and true. The result is the returned flag and the game
  after the call.
\<close>

definition game_place_stone ::
  "outside \<Rightarrow> game \<Rightarrow> uchar \<Rightarrow> uchar \<Rightarrow> error + (bool \<times> game)" where
  "game_place_stone ob g x y =
     (case board_get ob (board g) x y of
        Inl e \<Rightarrow> Inl e
      | Inr v \<Rightarrow>
          if v \<noteq> EMPTY_INTERSECTION then Inr (False, g)
          else
            (case put_stone g x y of
               Inl e \<Rightarrow> Inl e
             | Inr g3 \<Rightarrow>
                 (case apply_rules ob g3 x y of
                    Inl e \<Rightarrow> Inl e
                  | Inr g' \<Rightarrow> Inr (True, g'))))"

text \<open>
  Calls of \<^verbatim>\<open>game_place_stone\<close> one after the other, the returned flag ignored, as the
  loops of \<^verbatim>\<open>game_replay\<close> and \<^verbatim>\<open>game_import\<close> make them.
\<close>

fun place_all :: "outside \<Rightarrow> game \<Rightarrow> (uchar \<times> uchar) list \<Rightarrow> error + game" where
  "place_all ob g [] = Inr g"
| "place_all ob g ((x, y) # ps) =
     (case game_place_stone ob g x y of
        Inl e \<Rightarrow> Inl e
      | Inr (placed, g') \<Rightarrow> place_all ob g' ps)"

section \<open>board.c: formal coordinates\<close>

text \<open>
  Texts are lists of characters. A buffer of the C program is the list of the bytes of
  its array; the string it holds ends before its first NUL, and a buffer without a NUL
  holds no string: reading it runs past the array.
\<close>

definition NUL :: char where
  "NUL = CHR 0x00"

definition c_string :: "string \<Rightarrow> error + string" where
  "c_string buf =
     (if List.member buf NUL then Inr (takeWhile (\<lambda>c. c \<noteq> NUL) buf) else Inl OUT_OF_RANGE)"

text \<open>
  \<^verbatim>\<open>board_formal_coord\<close> writes into the caller's buffer: the letter into byte 0; for a
  row below 10 its digit into byte 1 and NUL into byte 2; for a row from 10 on \<^verbatim>\<open>'1'\<close>
  into byte 1 and the last digit into byte 2, and nothing else. The result is the buffer
  after the call.
\<close>

definition board_formal_coord :: "board \<Rightarrow> uchar \<Rightarrow> uchar \<Rightarrow> string \<Rightarrow> error + string" where
  "board_formal_coord b x y formal_coord =
     (if x \<ge> size_b b \<or> y \<ge> size_b b \<or> x < 0 \<or> y < 0 then Inl COORDINATE_ERR
      else if length formal_coord < 3 then Inl OUT_OF_RANGE
      else
        let x1 = x + 65;
            buf = formal_coord[0 := char_of (unat x1)];
            y1 = size_b b - y
        in if y1 < LOWEST_TWO_DIGITS
           then Inr (buf[1 := char_of (unat (y1 + 48)), 2 := NUL])
           else Inr (buf[1 := CHR ''1'', 2 := char_of (unat (y1 - LOWEST_TWO_DIGITS + 48))]))"

text \<open>
  The conversions of \<^verbatim>\<open>scanf\<close> that the program uses. \<^verbatim>\<open>%d\<close> skips white space, takes
  an optional sign and then digits, as many as there are, and fails when there is no
  digit; \<^verbatim>\<open>%s\<close> skips white space and takes the characters up to the next white space,
  and fails at the end of the input. Both return what they read and the input left
  unread. \<^verbatim>\<open>%d\<close> stores an \<^verbatim>\<open>int\<close>. For digits whose number does not fit one the C
  standard fixes no result; the model does what the C library of a 64-bit Linux system
  does: the digits are converted to a \<^verbatim>\<open>long\<close>, the largest or the smallest one when
  their number is beyond it, and the low 32 bits of that become the \<^verbatim>\<open>int\<close>.
\<close>

definition stored_int :: "int \<Rightarrow> int" where
  "stored_int v = sint (word_of_int (max (- (2 ^ 63)) (min (2 ^ 63 - 1) v)) :: 32 word)"

definition is_space :: "char \<Rightarrow> bool" where
  "is_space c = (of_char c = (32::nat) \<or> (9 \<le> (of_char c :: nat) \<and> (of_char c :: nat) \<le> 13))"

definition is_digit :: "char \<Rightarrow> bool" where
  "is_digit c = (48 \<le> (of_char c :: nat) \<and> (of_char c :: nat) \<le> 57)"

definition digits_value :: "string \<Rightarrow> int" where
  "digits_value ds = foldl (\<lambda>a c. 10 * a + (int (of_char c) - 48)) 0 ds"

definition scan_d :: "string \<Rightarrow> (int \<times> string) option" where
  "scan_d s =
     (let s1 = dropWhile is_space s;
          neg = (s1 \<noteq> [] \<and> hd s1 = CHR ''-'');
          s2 = (if s1 \<noteq> [] \<and> (hd s1 = CHR ''-'' \<or> hd s1 = CHR ''+'') then tl s1 else s1);
          ds = takeWhile is_digit s2
      in if ds = [] then None
         else Some (stored_int (if neg then - digits_value ds else digits_value ds),
                    dropWhile is_digit s2))"

definition scan_s :: "string \<Rightarrow> (string \<times> string) option" where
  "scan_s s =
     (let s1 = dropWhile is_space s
      in if s1 = [] then None
         else Some (takeWhile (\<lambda>c. \<not> is_space c) s1, dropWhile (\<lambda>c. \<not> is_space c) s1))"

text \<open>
  \<^verbatim>\<open>board_coord\<close>: \<^verbatim>\<open>sscanf(formal_coord, "%c%d", x, &row) != 2\<close> fails on the empty
  text and on a text whose rest does not start a number; then the tests on the letter,
  the row and \<^verbatim>\<open>strlen(formal_coord) > MAX_STRING_LENGTH\<close>. What follows the digits is
  not looked at.
\<close>

definition board_coord :: "board \<Rightarrow> string \<Rightarrow> error + (uchar \<times> uchar)" where
  "board_coord b formal_coord =
     (case formal_coord of
        [] \<Rightarrow> Inl FORMAL_COORDINATE_ERR
      | c # rest \<Rightarrow>
          (case scan_d rest of
             None \<Rightarrow> Inl FORMAL_COORDINATE_ERR
           | Some (row, unread) \<Rightarrow>
               if (of_char c :: nat) < 65 \<or> (of_char c :: nat) \<ge> 65 + unat (size_b b)
                  \<or> row < 1 \<or> row > uint (size_b b)
                  \<or> length formal_coord > MAX_STRING_LENGTH
               then Inl FORMAL_COORDINATE_ERR
               else Inr (of_nat (of_char c) - 65, size_b b - word_of_int row)))"

section \<open>io.c\<close>

text \<open>
  \<^verbatim>\<open>game_export\<close> gives the text of the file. \<^verbatim>\<open>%d\<close> prints values of
  \<^verbatim>\<open>unsigned char\<close>, at most three digits. The buffer \<^verbatim>\<open>formal_coord\<close> of the loop is
  not initialised; its bytes before the first call are the parameter \<open>junk\<close>, and each
  turn of the loop finds the bytes the turn before left. The return value of
  \<^verbatim>\<open>board_formal_coord\<close> is not tested: after \<^verbatim>\<open>COORDINATE_ERR\<close> the buffer is printed as
  it is.
\<close>

definition digit_char :: "nat \<Rightarrow> char" where
  "digit_char d = char_of (48 + d)"

definition print_d :: "nat \<Rightarrow> string" where
  "print_d n =
     (if n < 10 then [digit_char n]
      else if n < 100 then [digit_char (n div 10), digit_char (n mod 10)]
      else [digit_char (n div 100), digit_char (n div 10 mod 10), digit_char (n mod 10)])"

definition newline :: char where
  "newline = CHR 0x0A"

definition written_buffer :: "board \<Rightarrow> move \<Rightarrow> string \<Rightarrow> error + string" where
  "written_buffer b m formal_coord =
     (case board_formal_coord b (x_m m) (y_m m) formal_coord of
        Inl e \<Rightarrow> if e = COORDINATE_ERR then Inr formal_coord else Inl e
      | Inr buf \<Rightarrow> Inr buf)"

fun export_moves :: "board \<Rightarrow> string \<Rightarrow> move list \<Rightarrow> error + string" where
  "export_moves b formal_coord [] = Inr []"
| "export_moves b formal_coord (m # ms) =
     (case written_buffer b m formal_coord of
        Inl e \<Rightarrow> Inl e
      | Inr buf \<Rightarrow>
          (case c_string buf of
             Inl e \<Rightarrow> Inl e
           | Inr text_m \<Rightarrow>
               (case export_moves b buf ms of
                  Inl e \<Rightarrow> Inl e
                | Inr out \<Rightarrow> Inr (text_m @ [newline] @ out))))"

definition game_export :: "string \<Rightarrow> game \<Rightarrow> error + string" where
  "game_export junk g =
     (case export_moves (board g) junk (take (moves_count g) (moves g)) of
        Inl e \<Rightarrow> Inl e
      | Inr out \<Rightarrow>
          Inr (''GA'' @ [newline]
               @ print_d (unat (size_b (board g))) @ [newline]
               @ print_d (unat (type g)) @ [newline]
               @ print_d (unat (state g)) @ [newline]
               @ print_d (unat (winner g)) @ [newline]
               @ out))"

lemma scan_s_shorter: "scan_s s = Some (tok, r) \<Longrightarrow> length r < length s"
proof -
  assume a: "scan_s s = Some (tok, r)"
  let ?s1 = "dropWhile is_space s"
  from a have ne: "?s1 \<noteq> []" and r: "r = dropWhile (\<lambda>c. \<not> is_space c) ?s1"
    by (auto simp: scan_s_def Let_def split: if_splits)
  from ne have "\<not> is_space (hd ?s1)" by (rule hd_dropWhile)
  then have r': "r = dropWhile (\<lambda>c. \<not> is_space c) (tl ?s1)"
    using ne r by (cases ?s1) auto
  have "length r \<le> length (tl ?s1)" unfolding r' by (rule length_dropWhile_le)
  also have "\<dots> < length ?s1" using ne by (cases ?s1) auto
  also have "\<dots> \<le> length s" by (rule length_dropWhile_le)
  finally show ?thesis .
qed

text \<open>
  \<^verbatim>\<open>game_import\<close> from the text of the file. The first token must be \<^verbatim>\<open>GA\<close>. The four
  numbers are read with \<^verbatim>\<open>fscanf(inputStream, "%d", ...)\<close> whose result is not tested:
  when a conversion fails the variable is used without a value. A token longer than
  three characters overflows the buffer of four bytes it is read into. The state and the
  winner of the file are stored in the new game, and then every coordinate of the file is
  placed with \<^verbatim>\<open>game_place_stone\<close>.
\<close>

function import_moves :: "outside \<Rightarrow> game \<Rightarrow> string \<Rightarrow> error + game" where
  "import_moves ob g input =
     (case scan_s input of
        None \<Rightarrow> Inr g
      | Some (formal_coord, unread) \<Rightarrow>
          if length formal_coord > MAX_STRING_LENGTH then Inl OUT_OF_RANGE
          else
            (case board_coord (board g) formal_coord of
               Inl e \<Rightarrow> Inl FILE_INPUT_ERR
             | Inr (x, y) \<Rightarrow>
                 (case game_place_stone ob g x y of
                    Inl e \<Rightarrow> Inl e
                  | Inr (placed, g') \<Rightarrow> import_moves ob g' unread)))"
  by pat_completeness auto
termination
  by (relation "measure (\<lambda>(ob, g, input). length input)") (auto simp: scan_s_shorter)

definition game_import :: "outside \<Rightarrow> string \<Rightarrow> error + game" where
  "game_import ob input =
     (case scan_s input of
        None \<Rightarrow> Inl FILE_INPUT_ERR
      | Some (inputLine, r1) \<Rightarrow>
          if length inputLine > MAX_STRING_LENGTH then Inl OUT_OF_RANGE
          else if inputLine \<noteq> ''GA'' then Inl FILE_INPUT_ERR
          else
     (case scan_d r1 of
        None \<Rightarrow> Inl UNINITIALIZED
      | Some (sz, r2) \<Rightarrow>
          if sz \<noteq> 15 \<and> sz \<noteq> 17 \<and> sz \<noteq> 19 then Inl FILE_INPUT_ERR
          else
     (case scan_d r2 of
        None \<Rightarrow> Inl UNINITIALIZED
      | Some (ty, r3) \<Rightarrow>
          if ty \<noteq> 0 \<and> ty \<noteq> 1 then Inl FILE_INPUT_ERR
          else
     (case scan_d r3 of
        None \<Rightarrow> Inl UNINITIALIZED
      | Some (sta, r4) \<Rightarrow>
          if sta \<noteq> 1 \<and> sta \<noteq> 2 \<and> sta \<noteq> 3 then Inl FILE_INPUT_ERR
          else
     (case scan_d r4 of
        None \<Rightarrow> Inl UNINITIALIZED
      | Some (win, r5) \<Rightarrow>
          if win \<noteq> 0 \<and> win \<noteq> 1 \<and> win \<noteq> 2 then Inl FILE_INPUT_ERR
          else
     (case game_create (word_of_int sz) (word_of_int ty) of
        Inl e \<Rightarrow> Inl e
      | Inr importGame \<Rightarrow>
          import_moves ob
            (importGame\<lparr>state := word_of_int sta, winner := word_of_int win\<rparr>) r5))))))"

text \<open>
  The game loop on a given input: the coordinates the players enter, already converted
  by \<^verbatim>\<open>board_coord\<close>. \<^verbatim>\<open>game_update\<close> places nothing once the state is not
  \<^verbatim>\<open>GAME_STATE_PLAYING\<close>, and at the end of the input it sets the state to
  \<^verbatim>\<open>GAME_STATE_STOPPED\<close>.
\<close>

fun play :: "outside \<Rightarrow> game \<Rightarrow> (uchar \<times> uchar) list \<Rightarrow> error + game" where
  "play ob g [] =
     Inr (if state g = GAME_STATE_PLAYING then g\<lparr>state := GAME_STATE_STOPPED\<rparr> else g)"
| "play ob g ((x, y) # ps) =
     (if state g \<noteq> GAME_STATE_PLAYING then Inr g
      else case game_place_stone ob g x y of
             Inl e \<Rightarrow> Inl e
           | Inr (placed, g') \<Rightarrow> play ob g' ps)"

section \<open>What the claims speak of\<close>

text \<open>
  A board as \<^verbatim>\<open>board_create\<close> lays it out: one of the three sizes, and a grid of
  \<open>size * size\<close> cells. \<open>stones_on\<close> counts the cells that are not empty.
\<close>

definition board_ok :: "board \<Rightarrow> bool" where
  "board_ok b =
     ((size_b b = BOARD_SIZE_15 \<or> size_b b = BOARD_SIZE_17 \<or> size_b b = BOARD_SIZE_19)
      \<and> length (grid b) = unat (size_b b) * unat (size_b b))"

definition stones_on :: "board \<Rightarrow> nat" where
  "stones_on b = length (filter (\<lambda>v. v \<noteq> EMPTY_INTERSECTION) (grid b))"

text \<open>The move at index \<open>i\<close> is Black's when \<open>i\<close> is even and White's when it is odd.\<close>

definition colour_of_move :: "nat \<Rightarrow> uchar" where
  "colour_of_move i = (if even i then BLACK_STONE else WHITE_STONE)"

definition alternating :: "move list \<Rightarrow> bool" where
  "alternating ms = list_all (\<lambda>i. stone_m (ms ! i) = colour_of_move i) [0..<length ms]"

text \<open>
  Cells by integer coordinates, for speaking of lines on the board: the cell in column
  \<open>i\<close> and row \<open>j\<close>, and \<open>None\<close> where \<open>(i, j)\<close> is not on the board.
\<close>

definition cell_at :: "board \<Rightarrow> int \<Rightarrow> int \<Rightarrow> uchar option" where
  "cell_at b i j =
     (if 0 \<le> i \<and> i < uint (size_b b) \<and> 0 \<le> j \<and> j < uint (size_b b)
      then Some (grid b ! (nat j * unat (size_b b) + nat i)) else None)"

text \<open>
  The four axes and the step from one cell of a line to the next: down a column, along a
  row, down a diagonal (to the right and down) and up a diagonal (to the right and up; row
  0 is the top row).
\<close>

datatype axis = Vertical | Horizontal | DiagonalDown | DiagonalUp

fun step_of :: "axis \<Rightarrow> int \<times> int" where
  "step_of Vertical = (0, 1)"
| "step_of Horizontal = (1, 0)"
| "step_of DiagonalDown = (1, 1)"
| "step_of DiagonalUp = (1, - 1)"

definition axes :: "axis list" where
  "axes = [Vertical, Horizontal, DiagonalDown, DiagonalUp]"

text \<open>
  \<open>run_from b s len a i j\<close>: the \<open>len\<close> cells from \<open>(i, j)\<close> along the axis \<open>a\<close> are
  on the board and hold the colour \<open>s\<close>. \<open>run_through\<close>: such a run passes through
  the cell \<open>(x, y)\<close>, as its cell number \<open>t < len\<close>. \<open>run_on_line\<close>: such a run lies
  somewhere on the line of the axis through \<open>(x, y)\<close>.
\<close>

definition run_from :: "board \<Rightarrow> uchar \<Rightarrow> nat \<Rightarrow> axis \<Rightarrow> int \<Rightarrow> int \<Rightarrow> bool" where
  "run_from b s len a i j =
     list_all (\<lambda>k. cell_at b (i + int k * fst (step_of a)) (j + int k * snd (step_of a)) = Some s)
       [0..<len]"

definition run_through :: "board \<Rightarrow> uchar \<Rightarrow> nat \<Rightarrow> axis \<Rightarrow> uchar \<Rightarrow> uchar \<Rightarrow> bool" where
  "run_through b s len a x y =
     list_ex (\<lambda>t. run_from b s len a (uint x - int t * fst (step_of a))
                     (uint y - int t * snd (step_of a)))
       [0..<len]"

definition run_on_line :: "board \<Rightarrow> uchar \<Rightarrow> nat \<Rightarrow> axis \<Rightarrow> uchar \<Rightarrow> uchar \<Rightarrow> bool" where
  "run_on_line b s len a x y =
     list_ex (\<lambda>t. run_from b s len a
                     (uint x + (int t - uint (size_b b)) * fst (step_of a))
                     (uint y + (int t - uint (size_b b)) * snd (step_of a)))
       [0..<2 * unat (size_b b) + 1]"

text \<open>
  An open four as the specification describes it: four stones of the colour in a run
  along the axis through \<open>(x, y)\<close>, and the cell before the run and the cell after it
  both empty.
\<close>

definition open_four_through :: "board \<Rightarrow> uchar \<Rightarrow> axis \<Rightarrow> uchar \<Rightarrow> uchar \<Rightarrow> bool" where
  "open_four_through b s a x y =
     list_ex (\<lambda>t. run_from b s 4 a (uint x - int t * fst (step_of a))
                     (uint y - int t * snd (step_of a))
                  \<and> cell_at b (uint x - (int t + 1) * fst (step_of a))
                       (uint y - (int t + 1) * snd (step_of a)) = Some EMPTY_INTERSECTION
                  \<and> cell_at b (uint x + (4 - int t) * fst (step_of a))
                       (uint y + (4 - int t) * snd (step_of a)) = Some EMPTY_INTERSECTION)
       [0..<4]"

text \<open>
  The coordinate texts the specification admits: a letter from \<^verbatim>\<open>'A'\<close> up to the size of
  the board, then nothing but digits that form a row number from 1 to the size, at most
  three characters in all.
\<close>

definition spec_valid_coordinate :: "board \<Rightarrow> string \<Rightarrow> bool" where
  "spec_valid_coordinate b s =
     (case s of
        [] \<Rightarrow> False
      | c # ds \<Rightarrow>
          65 \<le> (of_char c :: nat) \<and> (of_char c :: nat) < 65 + unat (size_b b)
          \<and> ds \<noteq> [] \<and> list_all is_digit ds
          \<and> 1 \<le> digits_value ds \<and> digits_value ds \<le> uint (size_b b)
          \<and> length s \<le> 3)"

text \<open>
  Parsing the formal coordinate produced for \<open>(x, y)\<close>: \<^verbatim>\<open>board_formal_coord\<close> writes
  into the buffer \<open>buf\<close>, and \<^verbatim>\<open>board_coord\<close> reads the string the buffer then holds.
\<close>

definition parse_formal :: "board \<Rightarrow> uchar \<Rightarrow> uchar \<Rightarrow> string \<Rightarrow> error + (uchar \<times> uchar)" where
  "parse_formal b x y buf =
     (case board_formal_coord b x y buf of
        Inl e \<Rightarrow> Inl e
      | Inr written \<Rightarrow>
          (case c_string written of
             Inl e \<Rightarrow> Inl e
           | Inr s \<Rightarrow> board_coord b s))"

text \<open>
  The games that calls of the public functions produce from a new game. \<open>reachable\<close>
  allows \<^verbatim>\<open>game_place_stone\<close> in any state of the game, whatever surrounds the grid
  at each call. \<open>played\<close> allows it only while the state is \<^verbatim>\<open>GAME_STATE_PLAYING\<close>,
  which is how \<^verbatim>\<open>game_update\<close> calls it, and lets \<^verbatim>\<open>game_update\<close> stop the game at
  the end of the input.
\<close>

inductive reachable :: "game \<Rightarrow> bool" where
  created: "game_create sz ty = Inr g \<Longrightarrow> reachable g"
| placed: "reachable g \<Longrightarrow> game_place_stone ob g x y = Inr (r, g') \<Longrightarrow> reachable g'"

inductive played :: "game \<Rightarrow> bool" where
  created: "game_create sz ty = Inr g \<Longrightarrow> played g"
| placed: "played g \<Longrightarrow> state g = GAME_STATE_PLAYING
            \<Longrightarrow> game_place_stone ob g x y = Inr (r, g') \<Longrightarrow> played g'"
| stopped: "played g \<Longrightarrow> state g = GAME_STATE_PLAYING
            \<Longrightarrow> played (g\<lparr>state := GAME_STATE_STOPPED\<rparr>)"

text \<open>
  The games of the game loop started on a new game: \<^verbatim>\<open>game_update\<close> calls
  \<^verbatim>\<open>game_place_stone\<close> only while the state is \<^verbatim>\<open>GAME_STATE_PLAYING\<close>, with
  coordinates that \<^verbatim>\<open>board_coord\<close> has returned, which are coordinates of the grid.
  And a board that holds, somewhere along one of the four axes, five stones of one colour
  in a row.
\<close>

definition five_on_board :: "board \<Rightarrow> uchar \<Rightarrow> bool" where
  "five_on_board b s =
     list_ex (\<lambda>a. list_ex (\<lambda>i. list_ex (\<lambda>j. run_from b s NEEDED_CONNECTIONS a (int i) (int j))
                                [0..<unat (size_b b)])
                      [0..<unat (size_b b)])
       axes"

inductive played_on_grid :: "game \<Rightarrow> bool" where
  created: "game_create sz ty = Inr g \<Longrightarrow> played_on_grid g"
| placed: "played_on_grid g \<Longrightarrow> state g = GAME_STATE_PLAYING
            \<Longrightarrow> x < size_b (board g) \<Longrightarrow> y < size_b (board g)
            \<Longrightarrow> game_place_stone ob g x y = Inr (r, g') \<Longrightarrow> played_on_grid g'"

section \<open>The counting loops as one loop\<close>

text \<open>
  The eight counting loops of the win checks and of \<^verbatim>\<open>overline\<close> have one shape. For
  the proofs they are all brought to \<open>line_loop\<close>: the same loop over the cells
  \<open>rd 0, rd 1, \<dots>, rd (n - 1)\<close> of a line. \<open>line_cell\<close> reads cell number \<open>k\<close> of the
  line that starts at \<open>st\<close> and proceeds by the step \<open>d\<close>, through \<^verbatim>\<open>board_get\<close>.
  \<open>axis_loop\<close> names the loop of the source for each axis, with the walk to its start.
\<close>

function line_loop ::
  "(nat \<Rightarrow> error + uchar) \<Rightarrow> uchar \<Rightarrow> nat \<Rightarrow> nat \<Rightarrow> nat \<Rightarrow> nat \<Rightarrow> error + scan" where
  "line_loop rd s needed n i c =
     (if i < n then
        (case rd i of
           Inl e \<Rightarrow> Inl e
         | Inr v \<Rightarrow>
             if v = s then
               (if c + 1 = needed then Inr Found
                else line_loop rd s needed n (i + 1) (c + 1))
             else line_loop rd s needed n (i + 1) 0)
      else Inr (Ended c))"
  by pat_completeness auto
termination
  by (relation "measure (\<lambda>(rd, s, needed, n, i, c). n - i)") auto

definition line_cell :: "outside \<Rightarrow> board \<Rightarrow> int \<times> int \<Rightarrow> int \<times> int \<Rightarrow> nat \<Rightarrow> error + uchar" where
  "line_cell ob b st d k =
     board_get ob b (word_of_int (fst st + int k * fst d)) (word_of_int (snd st + int k * snd d))"

definition axis_loop ::
  "outside \<Rightarrow> game \<Rightarrow> axis \<Rightarrow> nat \<Rightarrow> uchar \<Rightarrow> uchar \<Rightarrow> nat \<Rightarrow> error + scan" where
  "axis_loop ob g a needed x y c =
     (case a of
        Vertical \<Rightarrow> vertical_loop ob g x needed 0 c
      | Horizontal \<Rightarrow> horizontal_loop ob g y needed 0 c
      | DiagonalDown \<Rightarrow>
          (case diagonal_down_start x y of
             (x0, y0) \<Rightarrow> diagonal_down_loop ob g needed x0 y0 c)
      | DiagonalUp \<Rightarrow>
          (case diagonal_up_start (size_b (board g)) x y of
             (x0, y0) \<Rightarrow> diagonal_up_loop ob g needed x0 y0 c))"

section \<open>Concrete games\<close>

text \<open>
  A position written down directly: the grid of an \<open>n x n\<close> board holding the listed
  stones \<open>(x, y, colour)\<close>, the move records of the same list, and the 15 x 15 game of
  the given type whose log is that list, with the given stone to move, state and winner.
\<close>

definition grid_with :: "nat \<Rightarrow> (nat \<times> nat \<times> uchar) list \<Rightarrow> uchar list" where
  "grid_with n stones =
     fold (\<lambda>(x, y, s) cells. cells[y * n + x := s]) stones (replicate (n * n) EMPTY_INTERSECTION)"

definition moves_with :: "(nat \<times> nat \<times> uchar) list \<Rightarrow> move list" where
  "moves_with stones = map (\<lambda>(x, y, s). \<lparr>x_m = of_nat x, y_m = of_nat y, stone_m = s\<rparr>) stones"

definition game_with ::
  "uchar \<Rightarrow> (nat \<times> nat \<times> uchar) list \<Rightarrow> uchar \<Rightarrow> uchar \<Rightarrow> uchar \<Rightarrow> game" where
  "game_with ty stones st sta win =
     \<lparr>board = \<lparr>size_b = 15, grid = grid_with 15 stones\<rparr>,
      type = ty, stone = st, state = sta, winner = win,
      moves = moves_with stones, moves_count = length stones,
      moves_capacity = INITIAL_NUM_MOVES\<rparr>"

text \<open>
  The new 15 x 15 freestyle game, and that game after Black's first stone on the centre
  \<open>(7, 7)\<close>.
\<close>

definition new_game_15 :: game where
  "new_game_15 =
     game_with GAME_FREESTYLE [] BLACK_STONE GAME_STATE_PLAYING EMPTY_INTERSECTION"

definition centre_stone_game :: game where
  "centre_stone_game =
     game_with GAME_FREESTYLE [(7, 7, BLACK_STONE)] WHITE_STONE GAME_STATE_PLAYING
       EMPTY_INTERSECTION"

text \<open>
  Eight stones of a freestyle game: four black ones on the diagonal from \<open>(0, 14)\<close> up
  to \<open>(3, 11)\<close>, four white ones at the other end of it. Black's next stone on
  \<open>(4, 10)\<close> makes five.
\<close>

definition four_on_diagonal :: "(nat \<times> nat \<times> uchar) list" where
  "four_on_diagonal =
     [(0, 14, BLACK_STONE), (14, 0, WHITE_STONE), (1, 13, BLACK_STONE), (13, 1, WHITE_STONE),
      (2, 12, BLACK_STONE), (12, 2, WHITE_STONE), (3, 11, BLACK_STONE), (11, 3, WHITE_STONE)]"

definition four_game :: game where
  "four_game =
     game_with GAME_FREESTYLE four_on_diagonal BLACK_STONE GAME_STATE_PLAYING
       EMPTY_INTERSECTION"

definition five_game :: game where
  "five_game =
     game_with GAME_FREESTYLE (four_on_diagonal @ [(4, 10, BLACK_STONE)]) BLACK_STONE
       GAME_STATE_FINISHED BLACK_STONE"

text \<open>
  The same game after \<^verbatim>\<open>game_place_stone\<close> has been called once more, on \<open>(7, 7)\<close>.
\<close>

definition black_twice_game :: game where
  "black_twice_game =
     game_with GAME_FREESTYLE (four_on_diagonal @ [(4, 10, BLACK_STONE), (7, 7, BLACK_STONE)])
       BLACK_STONE GAME_STATE_FINISHED BLACK_STONE"

text \<open>
  Ten stones of a Renju game: black ones on \<open>(0, 14)\<close>, \<open>(1, 13)\<close>, \<open>(2, 12)\<close> and on
  \<open>(4, 10)\<close>, \<open>(5, 9)\<close> of one diagonal, white ones on the top row. Black's next stone
  on \<open>(3, 11)\<close> makes six.
\<close>

definition split_five :: "(nat \<times> nat \<times> uchar) list" where
  "split_five =
     [(0, 14, BLACK_STONE), (0, 0, WHITE_STONE), (1, 13, BLACK_STONE), (2, 0, WHITE_STONE),
      (2, 12, BLACK_STONE), (4, 0, WHITE_STONE), (4, 10, BLACK_STONE), (6, 0, WHITE_STONE),
      (5, 9, BLACK_STONE), (8, 0, WHITE_STONE)]"

definition renju_new_15 :: game where
  "renju_new_15 = game_with GAME_RENJU [] BLACK_STONE GAME_STATE_PLAYING EMPTY_INTERSECTION"

definition renju_centre_game :: game where
  "renju_centre_game =
     game_with GAME_RENJU [(7, 7, BLACK_STONE)] WHITE_STONE GAME_STATE_PLAYING
       EMPTY_INTERSECTION"

definition split_five_game :: game where
  "split_five_game =
     game_with GAME_RENJU split_five BLACK_STONE GAME_STATE_PLAYING EMPTY_INTERSECTION"

definition six_game :: game where
  "six_game =
     game_with GAME_RENJU (split_five @ [(3, 11, BLACK_STONE)]) BLACK_STONE
       GAME_STATE_FORBIDDEN WHITE_STONE"

text \<open>
  Twelve stones of a Renju game: three black ones above \<open>(7, 7)\<close> in its column, three
  to the right of it in its row, and six white ones on the top row. Black's next stone
  on \<open>(7, 7)\<close> completes a four in the column and a four in the row.
\<close>

definition two_threes :: "(nat \<times> nat \<times> uchar) list" where
  "two_threes =
     [(7, 4, BLACK_STONE), (1, 0, WHITE_STONE), (7, 5, BLACK_STONE), (3, 0, WHITE_STONE),
      (7, 6, BLACK_STONE), (5, 0, WHITE_STONE), (8, 7, BLACK_STONE), (9, 0, WHITE_STONE),
      (9, 7, BLACK_STONE), (11, 0, WHITE_STONE), (10, 7, BLACK_STONE), (13, 0, WHITE_STONE)]"

definition two_threes_game :: game where
  "two_threes_game =
     game_with GAME_RENJU two_threes BLACK_STONE GAME_STATE_PLAYING EMPTY_INTERSECTION"

definition two_fours_game :: game where
  "two_fours_game =
     game_with GAME_RENJU (two_threes @ [(7, 7, BLACK_STONE)]) WHITE_STONE GAME_STATE_PLAYING
       EMPTY_INTERSECTION"

text \<open>
  A 15 x 15 board filled without five in a row: the cell \<open>(x, y)\<close> is black when
  \<open>x div 2 + y\<close> is even and white otherwise, which gives 113 black and 112 white cells
  and no run longer than two. \<open>full_but_one\<close> is the Renju game in which all these stones
  but the black one on \<open>(0, 14)\<close> have been placed in turn, and \<open>full_game\<close> the game with
  that last stone placed and White to move.
\<close>

definition pattern_colour :: "nat \<Rightarrow> nat \<Rightarrow> uchar" where
  "pattern_colour x y = (if even (x div 2 + y) then BLACK_STONE else WHITE_STONE)"

definition pattern_cells :: "uchar \<Rightarrow> (nat \<times> nat \<times> uchar) list" where
  "pattern_cells s =
     concat (map (\<lambda>y. concat (map (\<lambda>x. if pattern_colour x y = s \<and> (x, y) \<noteq> (0, 14)
                                         then [(x, y, s)] else []) [0..<15])) [0..<15])"

definition pattern_moves :: "(nat \<times> nat \<times> uchar) list" where
  "pattern_moves =
     concat (map (\<lambda>(b, w). [b, w]) (zip (pattern_cells BLACK_STONE) (pattern_cells WHITE_STONE)))"

definition full_but_one :: game where
  "full_but_one =
     (game_with GAME_RENJU pattern_moves BLACK_STONE GAME_STATE_PLAYING EMPTY_INTERSECTION)
       \<lparr>moves_capacity := 256\<rparr>"

definition full_game :: game where
  "full_game =
     (game_with GAME_RENJU (pattern_moves @ [(0, 14, BLACK_STONE)]) WHITE_STONE
        GAME_STATE_PLAYING EMPTY_INTERSECTION)
       \<lparr>moves_capacity := 256\<rparr>"

text \<open>
  A Renju game of thirteen moves that Black wins with five in row 2, from \<open>(10, 2)\<close> to
  \<open>(14, 2)\<close>. After Black's fifth stone, on \<open>(14, 2)\<close>, the row ends with three black
  stones and the diagonal from \<open>(12, 0)\<close> to \<open>(14, 2)\<close> holds three more. \<open>reloaded_game\<close>
  is what \<^verbatim>\<open>game_import\<close> makes of the saved game.
\<close>

definition black_wins_moves :: "(nat \<times> nat \<times> uchar) list" where
  "black_wins_moves =
     [(12, 0, BLACK_STONE), (0, 14, WHITE_STONE), (13, 1, BLACK_STONE), (2, 14, WHITE_STONE),
      (12, 2, BLACK_STONE), (4, 14, WHITE_STONE), (13, 2, BLACK_STONE), (6, 14, WHITE_STONE),
      (14, 2, BLACK_STONE), (8, 14, WHITE_STONE), (11, 2, BLACK_STONE), (10, 14, WHITE_STONE),
      (10, 2, BLACK_STONE)]"

definition black_wins_game :: game where
  "black_wins_game =
     game_with GAME_RENJU black_wins_moves WHITE_STONE GAME_STATE_FINISHED BLACK_STONE"

definition reloaded_game :: game where
  "reloaded_game =
     game_with GAME_RENJU
       [(12, 0, BLACK_STONE), (0, 14, WHITE_STONE), (13, 1, BLACK_STONE), (2, 14, WHITE_STONE),
        (12, 2, BLACK_STONE), (4, 14, WHITE_STONE), (13, 2, BLACK_STONE), (6, 14, WHITE_STONE),
        (14, 2, BLACK_STONE), (8, 14, BLACK_STONE), (11, 2, WHITE_STONE), (10, 14, BLACK_STONE),
        (10, 2, WHITE_STONE)]
       BLACK_STONE GAME_STATE_FORBIDDEN WHITE_STONE"

definition zero_buffer :: string where
  "zero_buffer = [NUL, NUL, NUL, NUL]"

lemma new_game_15_created: "game_create BOARD_SIZE_15 GAME_FREESTYLE = Inr new_game_15"
  by code_simp

lemma renju_new_15_created: "game_create BOARD_SIZE_15 GAME_RENJU = Inr renju_new_15"
  by code_simp

text \<open>
  Six stones of a freestyle game with three black ones on the diagonal from \<open>(0, 14)\<close>
  up to \<open>(2, 12)\<close>, and the game after Black's stone on \<open>(3, 11)\<close>, which makes four
  in a row.
\<close>

definition three_on_diagonal :: "(nat \<times> nat \<times> uchar) list" where
  "three_on_diagonal =
     [(0, 14, BLACK_STONE), (14, 0, WHITE_STONE), (1, 13, BLACK_STONE), (13, 1, WHITE_STONE),
      (2, 12, BLACK_STONE), (12, 2, WHITE_STONE)]"

definition three_game :: game where
  "three_game =
     game_with GAME_FREESTYLE three_on_diagonal BLACK_STONE GAME_STATE_PLAYING
       EMPTY_INTERSECTION"

definition four_black_game :: game where
  "four_black_game =
     game_with GAME_FREESTYLE (three_on_diagonal @ [(3, 11, BLACK_STONE)]) WHITE_STONE
       GAME_STATE_PLAYING EMPTY_INTERSECTION"

text \<open>
  A freestyle game in which \<^verbatim>\<open>game_place_stone\<close> went on being called after the first
  win. Black makes five on the bottom row with the ninth stone, on \<open>(4, 14)\<close>; the stone
  to move stays Black, and the call on \<open>(7, 7)\<close> wins nothing and passes the move to
  White; White makes five in the last column with the stone on \<open>(14, 4)\<close> and places
  one more on \<open>(8, 8)\<close>. White is the winner and Black is to move. \<open>lone_stone_game\<close> is
  this game after Black's stone on \<open>(10, 14)\<close>, which has no neighbour of its colour.
\<close>

definition two_fives :: "(nat \<times> nat \<times> uchar) list" where
  "two_fives =
     [(0, 14, BLACK_STONE), (14, 0, WHITE_STONE), (1, 14, BLACK_STONE), (14, 1, WHITE_STONE),
      (2, 14, BLACK_STONE), (14, 2, WHITE_STONE), (3, 14, BLACK_STONE), (14, 3, WHITE_STONE),
      (4, 14, BLACK_STONE), (7, 7, BLACK_STONE), (14, 4, WHITE_STONE), (8, 8, WHITE_STONE)]"

definition two_fives_game :: game where
  "two_fives_game =
     game_with GAME_FREESTYLE two_fives BLACK_STONE GAME_STATE_FINISHED WHITE_STONE"

definition lone_stone_game :: game where
  "lone_stone_game =
     game_with GAME_FREESTYLE (two_fives @ [(10, 14, BLACK_STONE)]) BLACK_STONE
       GAME_STATE_FINISHED BLACK_STONE"

text \<open>
  Surroundings in which the byte that a read of \<open>(4, 255)\<close> finds is a black stone and
  every other byte behind the grid is empty; and a freestyle game with three black
  stones on the diagonal from \<open>(0, 3)\<close> up to \<open>(2, 1)\<close>, before and after Black's stone
  on \<open>(3, 0)\<close> at the top edge.
\<close>

definition black_byte_outside :: outside where
  "black_byte_outside x y =
     (if x = 4 \<and> y = 255 then Some BLACK_STONE else Some EMPTY_INTERSECTION)"

definition three_at_edge :: "(nat \<times> nat \<times> uchar) list" where
  "three_at_edge =
     [(0, 3, BLACK_STONE), (0, 14, WHITE_STONE), (1, 2, BLACK_STONE), (2, 14, WHITE_STONE),
      (2, 1, BLACK_STONE), (4, 14, WHITE_STONE)]"

definition three_at_edge_game :: game where
  "three_at_edge_game =
     game_with GAME_FREESTYLE three_at_edge BLACK_STONE GAME_STATE_PLAYING EMPTY_INTERSECTION"

definition four_at_edge_game :: game where
  "four_at_edge_game =
     game_with GAME_FREESTYLE (three_at_edge @ [(3, 0, BLACK_STONE)]) BLACK_STONE
       GAME_STATE_FINISHED BLACK_STONE"

text \<open>
  The replay of \<open>black_wins_game\<close>. \<^verbatim>\<open>game_import\<close> and \<^verbatim>\<open>game_replay\<close> create a new
  game, store the state and the winner of the saved game in it and then place its
  stones: \<open>replay_start\<close> is the game before the first stone, \<open>replay_game\<close> the game
  after eight stones, and \<open>replay_stone_game\<close> the game in which the ninth, Black's on
  \<open>(14, 2)\<close>, has been put on the board and into the log.
\<close>

definition replay_start :: game where
  "replay_start = renju_new_15\<lparr>state := GAME_STATE_FINISHED, winner := BLACK_STONE\<rparr>"

definition replay_game :: game where
  "replay_game =
     game_with GAME_RENJU (take 8 black_wins_moves) BLACK_STONE GAME_STATE_FINISHED BLACK_STONE"

definition replay_stone_game :: game where
  "replay_stone_game =
     game_with GAME_RENJU (take 9 black_wins_moves) BLACK_STONE GAME_STATE_FINISHED BLACK_STONE"

text \<open>
  A Renju game of eleven moves in which Black's last stone, on \<open>(14, 2)\<close>, makes exactly
  five in row 2, from \<open>(10, 2)\<close> to the right edge, with one more black stone on
  \<open>(12, 0)\<close>, on the diagonal down to \<open>(14, 2)\<close>.
\<close>

definition exact_five_moves :: "(nat \<times> nat \<times> uchar) list" where
  "exact_five_moves =
     [(12, 0, BLACK_STONE), (0, 14, WHITE_STONE), (10, 2, BLACK_STONE), (2, 14, WHITE_STONE),
      (11, 2, BLACK_STONE), (4, 14, WHITE_STONE), (12, 2, BLACK_STONE), (6, 14, WHITE_STONE),
      (13, 2, BLACK_STONE), (8, 14, WHITE_STONE), (14, 2, BLACK_STONE)]"

definition exact_five_game :: game where
  "exact_five_game =
     game_with GAME_RENJU exact_five_moves BLACK_STONE GAME_STATE_FORBIDDEN WHITE_STONE"

section \<open>Cells of the grid\<close>

lemma flat_index_less: "a < n \<Longrightarrow> c < n \<Longrightarrow> c * n + a < n * (n::nat)"
proof -
  assume a: "a < n" and c: "c < n"
  have "c * n + a < c * n + n" using a by simp
  also have "\<dots> = (c + 1) * n" by simp
  also have "\<dots> \<le> n * n" using c by (intro mult_le_mono1) simp
  finally show ?thesis .
qed

lemma flat_index_ge: "n \<le> c \<Longrightarrow> \<not> c * n + a < n * (n::nat)"
proof -
  assume "n \<le> c"
  then have "n * n \<le> c * n" by (rule mult_le_mono1)
  then have "n * n \<le> c * n + a" by (rule trans_le_add1)
  then show ?thesis by (simp only: not_less)
qed

lemma cell_index_inside:
  assumes "x < size_b b" and "y < size_b b"
  shows "cell_index b x y < unat (size_b b) * unat (size_b b)"
  unfolding cell_index_def using assms
  by (intro flat_index_less) (simp_all add: word_less_nat_alt)

lemma board_get_inside:
  assumes "x < size_b b" and "y < size_b b"
  shows "board_get ob b x y = Inr (grid b ! cell_index b x y)"
  using cell_index_inside [OF assms] by (simp add: board_get_def)

section \<open>Placing a stone on an occupied intersection\<close>

text \<open>
  C7. For every game and every cell of the grid that already holds a stone,
  \<^verbatim>\<open>game_place_stone\<close> returns false and leaves the whole game as it was: the grid, the
  moves and their count, the state, the winner and the stone to move.
\<close>

theorem place_on_occupied_rejected:
  assumes "x < size_b (board g)" and "y < size_b (board g)"
    and "grid (board g) ! cell_index (board g) x y \<noteq> EMPTY_INTERSECTION"
  shows "game_place_stone ob g x y = Inr (False, g)"
  using assms by (simp add: game_place_stone_def board_get_inside)

theorem place_on_occupied_rejected_witness:
  "place_all no_outside new_game_15 [(7, 7)] = Inr centre_stone_game
   \<and> game_place_stone no_outside centre_stone_game 7 7 = Inr (False, centre_stone_game)"
proof -
  have p: "place_all no_outside new_game_15 [(7, 7)] = Inr centre_stone_game"
    by code_simp
  have s: "7 < size_b (board centre_stone_game)"
    by code_simp
  have c: "grid (board centre_stone_game) ! cell_index (board centre_stone_game) 7 7
           \<noteq> EMPTY_INTERSECTION"
    by code_simp
  from place_on_occupied_rejected [OF s s c, of no_outside] p
  show ?thesis by simp
qed

section \<open>Reads outside the grid\<close>

text \<open>
  C10. The claim: for a placement at coordinates inside the grid, every cell the rule
  checks read lies inside the grid. The code does otherwise. On a new 15 x 15 board the
  first stone at \<open>(0, 0)\<close> makes \<^verbatim>\<open>diagonalUpWin\<close> read \<open>(0, 0)\<close>, decrement the unsigned
  \<open>y\<close> to 255 and read \<open>(1, 255)\<close>: with no surroundings to read from, the placement does
  not return.
\<close>

theorem first_stone_reads_outside_grid:
  "game_create BOARD_SIZE_15 GAME_FREESTYLE = Inr new_game_15
   \<and> game_place_stone no_outside new_game_15 0 0 = Inl OUT_OF_RANGE
   \<and> game_place_stone empty_outside new_game_15 0 0 \<noteq> Inl OUT_OF_RANGE"
  by code_simp

section \<open>The move log\<close>

lemma cell_index_less:
  assumes "length (grid b) = unat (size_b b) * unat (size_b b)"
    and "x < size_b b" and "y < size_b b"
  shows "cell_index b x y < length (grid b)"
  using cell_index_inside [OF assms(2) assms(3)] assms(1) by simp

lemma count_after_set:
  "i < length xs \<Longrightarrow> xs ! i = 0 \<Longrightarrow> v \<noteq> 0
   \<Longrightarrow> length (filter (\<lambda>v. v \<noteq> (0::uchar)) (xs[i := v]))
       = Suc (length (filter (\<lambda>v. v \<noteq> 0) xs))"
proof (induction xs arbitrary: i)
  case Nil
  then show ?case by simp
next
  case (Cons a xs)
  then show ?case by (cases i) auto
qed

lemma doubleOpenFours_keeps:
  "doubleOpenFours ob g x y = Inr g' \<Longrightarrow>
     board g' = board g \<and> moves g' = moves g \<and> moves_count g' = moves_count g
     \<and> type g' = type g \<and> stone g' = stone g \<and> moves_capacity g' = moves_capacity g"
  by (auto simp: doubleOpenFours_def split: sum.splits if_splits)

lemma put_stone_cases:
  assumes "put_stone g x y = Inr g3"
  shows "cell_index (board g) x y < unat (size_b (board g)) * unat (size_b (board g))
         \<and> (stone g = BLACK_STONE \<or> stone g = WHITE_STONE)
         \<and> board g3 = (board g)\<lparr>grid := (grid (board g))[cell_index (board g) x y := stone g]\<rparr>
         \<and> moves g3 = moves g @ [\<lparr>x_m = x, y_m = y, stone_m = stone g\<rparr>]
         \<and> moves_count g3 = moves_count g + 1
         \<and> type g3 = type g \<and> stone g3 = stone g \<and> state g3 = state g
         \<and> winner g3 = winner g"
  using assms
  by (auto simp: put_stone_def Let_def board_set_def split: sum.splits if_splits)

lemma apply_rules_keeps:
  assumes "apply_rules ob g x y = Inr g'"
  shows "board g' = board g \<and> moves g' = moves g \<and> moves_count g' = moves_count g
         \<and> type g' = type g"
  using assms
  by (auto simp: apply_rules_def dest!: doubleOpenFours_keeps split: sum.splits if_splits)

lemma apply_rules_turn:
  assumes "apply_rules ob g x y = Inr g'" and "state g' = GAME_STATE_PLAYING"
  shows "stone g' = (if stone g = BLACK_STONE then WHITE_STONE else BLACK_STONE)"
  using assms
  by (auto simp: apply_rules_def dest!: doubleOpenFours_keeps split: sum.splits if_splits)

lemma game_place_stone_steps:
  assumes "game_place_stone ob g x y = Inr (r, g')"
  shows "(\<not> r \<and> g' = g) \<or>
         (r \<and> grid (board g) ! cell_index (board g) x y = EMPTY_INTERSECTION
          \<and> (\<exists>g3. put_stone g x y = Inr g3 \<and> apply_rules ob g3 x y = Inr g'))"
proof -
  obtain v where v: "board_get ob (board g) x y = Inr v"
    using assms by (auto simp: game_place_stone_def split: sum.splits)
  show ?thesis
  proof (cases "v = EMPTY_INTERSECTION")
    case False
    then show ?thesis using assms v by (simp add: game_place_stone_def)
  next
    case True
    then obtain g3 where p: "put_stone g x y = Inr g3" and a: "apply_rules ob g3 x y = Inr g'"
      and r: "r"
      using assms v by (auto simp: game_place_stone_def split: sum.splits)
    from put_stone_cases [OF p]
    have "cell_index (board g) x y < unat (size_b (board g)) * unat (size_b (board g))"
      by simp
    then have "grid (board g) ! cell_index (board g) x y = EMPTY_INTERSECTION"
      using v True by (simp add: board_get_def)
    with p a r show ?thesis by blast
  qed
qed

lemma game_place_stone_cases:
  assumes "game_place_stone ob g x y = Inr (r, g')"
  shows "(\<not> r \<and> g' = g) \<or>
         (r \<and> cell_index (board g) x y < unat (size_b (board g)) * unat (size_b (board g))
          \<and> grid (board g) ! cell_index (board g) x y = EMPTY_INTERSECTION
          \<and> (stone g = BLACK_STONE \<or> stone g = WHITE_STONE)
          \<and> board g' = (board g)\<lparr>grid := (grid (board g))[cell_index (board g) x y := stone g]\<rparr>
          \<and> moves g' = moves g @ [\<lparr>x_m = x, y_m = y, stone_m = stone g\<rparr>]
          \<and> moves_count g' = moves_count g + 1
          \<and> type g' = type g)"
  using game_place_stone_steps [OF assms]
proof
  assume "\<not> r \<and> g' = g"
  then show ?thesis by simp
next
  assume a: "r \<and> grid (board g) ! cell_index (board g) x y = EMPTY_INTERSECTION
          \<and> (\<exists>g3. put_stone g x y = Inr g3 \<and> apply_rules ob g3 x y = Inr g')"
  then obtain g3 where p: "put_stone g x y = Inr g3" and q: "apply_rules ob g3 x y = Inr g'"
    by blast
  from put_stone_cases [OF p] apply_rules_keeps [OF q] a show ?thesis by simp
qed

lemma game_place_stone_turn:
  assumes "game_place_stone ob g x y = Inr (True, g')" and "state g' = GAME_STATE_PLAYING"
  shows "stone g' = (if stone g = BLACK_STONE then WHITE_STONE else BLACK_STONE)"
proof -
  from game_place_stone_steps [OF assms(1)]
  obtain g3 where p: "put_stone g x y = Inr g3" and q: "apply_rules ob g3 x y = Inr g'"
    by blast
  from put_stone_cases [OF p] apply_rules_turn [OF q assms(2)] show ?thesis by simp
qed

lemma game_create_facts:
  assumes "game_create sz ty = Inr g"
  shows "board_ok (board g)" and "stones_on (board g) = 0" and "moves g = []"
    and "moves_count g = 0" and "stone g = BLACK_STONE"
  using assms
  by (auto simp: game_create_def board_create_def board_ok_def stones_on_def
      split: sum.splits if_splits)

lemma alternating_snoc:
  "alternating (ms @ [m]) \<longleftrightarrow> alternating ms \<and> stone_m m = colour_of_move (length ms)"
  by (auto simp: alternating_def list_all_iff nth_append)

lemma reachable_invariant:
  assumes "reachable g"
  shows "board_ok (board g) \<and> length (moves g) = moves_count g
         \<and> moves_count g = stones_on (board g)"
  using assms
proof (induction rule: reachable.induct)
  case (created sz ty g)
  then show ?case by (simp add: game_create_facts)
next
  case (placed g ob x y r g')
  from game_place_stone_cases [OF placed.hyps(2)] show ?case
  proof
    assume "\<not> r \<and> g' = g"
    with placed.IH show ?thesis by simp
  next
    assume a: "r \<and> cell_index (board g) x y < unat (size_b (board g)) * unat (size_b (board g))
          \<and> grid (board g) ! cell_index (board g) x y = EMPTY_INTERSECTION
          \<and> (stone g = BLACK_STONE \<or> stone g = WHITE_STONE)
          \<and> board g' = (board g)\<lparr>grid := (grid (board g))[cell_index (board g) x y := stone g]\<rparr>
          \<and> moves g' = moves g @ [\<lparr>x_m = x, y_m = y, stone_m = stone g\<rparr>]
          \<and> moves_count g' = moves_count g + 1
          \<and> type g' = type g"
    from placed.IH have ok: "board_ok (board g)" and len: "length (moves g) = moves_count g"
      and cnt: "moves_count g = stones_on (board g)" by simp_all
    from ok have l: "length (grid (board g)) = unat (size_b (board g)) * unat (size_b (board g))"
      by (simp add: board_ok_def)
    from a have i: "cell_index (board g) x y < length (grid (board g))"
      using l by simp
    from a have nz: "stone g \<noteq> 0" by auto
    have "stones_on (board g') = Suc (stones_on (board g))"
      using a count_after_set [OF i _ nz] by (simp add: stones_on_def)
    moreover have "board_ok (board g')" using a ok by (simp add: board_ok_def)
    ultimately show ?thesis using a len cnt by simp
  qed
qed

lemma played_invariant:
  assumes "played g"
  shows "alternating (moves g)
         \<and> (state g = GAME_STATE_PLAYING \<longrightarrow> stone g = colour_of_move (length (moves g)))"
  using assms
proof (induction rule: played.induct)
  case (created sz ty g)
  then show ?case
    by (simp add: game_create_facts alternating_def colour_of_move_def)
next
  case (placed g ob x y r g')
  from game_place_stone_cases [OF placed.hyps(3)] show ?case
  proof
    assume "\<not> r \<and> g' = g"
    with placed.IH show ?thesis by simp
  next
    assume a: "r \<and> cell_index (board g) x y < unat (size_b (board g)) * unat (size_b (board g))
          \<and> grid (board g) ! cell_index (board g) x y = EMPTY_INTERSECTION
          \<and> (stone g = BLACK_STONE \<or> stone g = WHITE_STONE)
          \<and> board g' = (board g)\<lparr>grid := (grid (board g))[cell_index (board g) x y := stone g]\<rparr>
          \<and> moves g' = moves g @ [\<lparr>x_m = x, y_m = y, stone_m = stone g\<rparr>]
          \<and> moves_count g' = moves_count g + 1
          \<and> type g' = type g"
    from placed.IH placed.hyps(2) have alt: "alternating (moves g)"
      and st: "stone g = colour_of_move (length (moves g))" by simp_all
    have 1: "alternating (moves g')" using a alt st by (simp add: alternating_snoc)
    have 2: "stone g' = colour_of_move (length (moves g'))" if "state g' = GAME_STATE_PLAYING"
      using game_place_stone_turn [of ob g x y g'] placed.hyps(3) a that st
      by (auto simp: colour_of_move_def)
    from 1 2 show ?thesis by simp
  qed
next
  case (stopped g)
  then show ?case by simp
qed

lemma reachable_place_all:
  "reachable g \<Longrightarrow> place_all ob g ps = Inr g' \<Longrightarrow> reachable g'"
proof (induction ps arbitrary: g)
  case Nil
  then show ?case by simp
next
  case (Cons p ps)
  obtain x y where p: "p = (x, y)" by (cases p)
  from Cons.prems(2) p obtain r g1 where s: "game_place_stone ob g x y = Inr (r, g1)"
    and rest: "place_all ob g1 ps = Inr g'"
    by (auto split: sum.splits)
  from Cons.prems(1) s have "reachable g1" by (rule reachable.placed)
  from this rest show ?case by (rule Cons.IH)
qed

lemma played_play:
  "played g \<Longrightarrow> play ob g ps = Inr g' \<Longrightarrow> played g'"
proof (induction ps arbitrary: g)
  case Nil
  then show ?case by (auto intro: played.stopped split: if_splits)
next
  case (Cons p ps)
  obtain x y where p: "p = (x, y)" by (cases p)
  show ?case
  proof (cases "state g = GAME_STATE_PLAYING")
    case False
    with Cons.prems p show ?thesis by simp
  next
    case True
    with Cons.prems(2) p obtain r g1 where s: "game_place_stone ob g x y = Inr (r, g1)"
      and rest: "play ob g1 ps = Inr g'"
      by (auto split: sum.splits)
    from Cons.prems(1) True s have "played g1" by (rule played.placed)
    from this rest show ?thesis by (rule Cons.IH)
  qed
qed

text \<open>
  C9, as the code has it. For every game reached from a new game by calls of
  \<^verbatim>\<open>game_place_stone\<close> in any state, the log holds as many moves as the board holds
  stones. When every call was made in the state \<^verbatim>\<open>GAME_STATE_PLAYING\<close>, the move at
  index \<open>i\<close> is Black's for even \<open>i\<close> and White's for odd \<open>i\<close>.
\<close>

theorem move_log_invariant:
  assumes "reachable g"
  shows "length (moves g) = moves_count g \<and> moves_count g = stones_on (board g)
         \<and> (played g \<longrightarrow> alternating (moves g))"
  using reachable_invariant [OF assms] played_invariant by blast

theorem move_log_invariant_witness:
  "reachable centre_stone_game \<and> played centre_stone_game
   \<and> length (moves centre_stone_game) = moves_count centre_stone_game
   \<and> moves_count centre_stone_game = stones_on (board centre_stone_game)
   \<and> alternating (moves centre_stone_game)
   \<and> reachable black_wins_game \<and> played black_wins_game
   \<and> length (moves black_wins_game) = 13
   \<and> moves_count black_wins_game = 13
   \<and> stones_on (board black_wins_game) = 13
   \<and> alternating (moves black_wins_game)"
proof -
  have p: "game_place_stone no_outside new_game_15 7 7 = Inr (True, centre_stone_game)"
    by code_simp
  have s: "state new_game_15 = GAME_STATE_PLAYING"
    by code_simp
  have r: "reachable centre_stone_game"
    using reachable.placed [OF reachable.created [OF new_game_15_created] p] .
  have q: "played centre_stone_game"
    using played.placed [OF played.created [OF new_game_15_created] s p] .
  have p2: "place_all empty_outside renju_new_15
      [(12, 0), (0, 14), (13, 1), (2, 14), (12, 2), (4, 14), (13, 2), (6, 14), (14, 2),
       (8, 14), (11, 2), (10, 14), (10, 2)]
     = Inr black_wins_game"
    by code_simp
  have l2: "play empty_outside renju_new_15
      [(12, 0), (0, 14), (13, 1), (2, 14), (12, 2), (4, 14), (13, 2), (6, 14), (14, 2),
       (8, 14), (11, 2), (10, 14), (10, 2)]
     = Inr black_wins_game"
    by code_simp
  have r2: "reachable black_wins_game"
    using reachable_place_all [OF reachable.created [OF renju_new_15_created] p2] .
  have q2: "played black_wins_game"
    using played_play [OF played.created [OF renju_new_15_created] l2] .
  have n2: "moves_count black_wins_game = 13" by code_simp
  from move_log_invariant [OF r] r q move_log_invariant [OF r2] r2 q2 n2
  show ?thesis by simp
qed

text \<open>
  The claim as it is written allows calls in any state, and there it fails: a win leaves
  \<^verbatim>\<open>g->stone\<close> as it is, so a further call records a second move of the winner. In
  \<open>black_twice_game\<close> the moves at indices 8 and 9 are both Black's.
\<close>

theorem move_log_alternation_counterexample:
  "place_all no_outside new_game_15
      [(0, 14), (14, 0), (1, 13), (13, 1), (2, 12), (12, 2), (3, 11), (11, 3), (4, 10), (7, 7)]
     = Inr black_twice_game
   \<and> reachable black_twice_game
   \<and> stone_m (moves black_twice_game ! 9) = BLACK_STONE
   \<and> \<not> alternating (moves black_twice_game)"
proof -
  have p: "place_all no_outside new_game_15
      [(0, 14), (14, 0), (1, 13), (13, 1), (2, 12), (12, 2), (3, 11), (11, 3), (4, 10), (7, 7)]
     = Inr black_twice_game"
    by code_simp
  have r: "reachable black_twice_game"
    using reachable_place_all [OF reachable.created [OF new_game_15_created] p] .
  have m: "stone_m (moves black_twice_game ! 9) = BLACK_STONE"
    by code_simp
  have a: "\<not> alternating (moves black_twice_game)"
    by code_simp
  from p r m a show ?thesis by simp
qed

section \<open>The counting loops\<close>

declare line_loop.simps [simp del]
declare vertical_loop.simps [simp del] horizontal_loop.simps [simp del]
  diagonal_down_loop.simps [simp del] diagonal_up_loop.simps [simp del]

lemma vertical_loop_line:
  "vertical_loop ob g x needed i c =
     line_loop (\<lambda>k. board_get ob (board g) x (of_nat k)) (stone g) needed
       (unat (size_b (board g))) i c"
proof (induction ob g x needed i c rule: vertical_loop.induct)
  case (1 ob g x needed i c)
  show ?case
    apply (subst vertical_loop.simps)
    apply (subst line_loop.simps)
    using 1 by (auto split: sum.splits)
qed

lemma horizontal_loop_line:
  "horizontal_loop ob g y needed i c =
     line_loop (\<lambda>k. board_get ob (board g) (of_nat k) y) (stone g) needed
       (unat (size_b (board g))) i c"
proof (induction ob g y needed i c rule: horizontal_loop.induct)
  case (1 ob g y needed i c)
  show ?case
    apply (subst horizontal_loop.simps)
    apply (subst line_loop.simps)
    using 1 by (auto split: sum.splits)
qed

declare diagonal_down_start.simps [simp del] diagonal_up_start.simps [simp del]

lemma line_loop_finds:
  assumes "c < needed" and "p + needed \<le> n"
    and "\<And>k. p \<le> k \<Longrightarrow> k < p + needed \<Longrightarrow> rd k = Inr s"
    and "i \<le> p \<or> (i - p \<le> c)"
  shows "line_loop rd s needed n i c \<noteq> Inr (Ended c')"
  using assms
proof (induction rd s needed n i c rule: line_loop.induct)
  case (1 rd s needed n i c)
  have i_lt: "i < p + needed" using "1.prems" by auto
  then have i_n: "i < n" using "1.prems" by simp
  show ?case
  proof (cases "rd i")
    case (Inl e)
    then show ?thesis using i_n by (subst line_loop.simps) simp
  next
    case (Inr v)
    show ?thesis
    proof (cases "v = s")
      case True
      show ?thesis
      proof (cases "c + 1 = needed")
        case True
        then show ?thesis using i_n Inr \<open>v = s\<close> by (subst line_loop.simps) simp
      next
        case False
        have a: "c + 1 < needed" using False "1.prems"(1) by simp
        have b: "i + 1 \<le> p \<or> i + 1 - p \<le> c + 1" using "1.prems"(4) by linarith
        have "line_loop rd s needed n (i + 1) (c + 1) \<noteq> Inr (Ended c')"
          using "1.IH"(1) [OF i_n Inr True False a "1.prems"(2) "1.prems"(3) b] by simp
        then show ?thesis using i_n Inr True False by (subst line_loop.simps) simp
      qed
    next
      case False
      have "i < p" using False Inr "1.prems"(3) [of i] i_lt by (cases "p \<le> i") auto
      then have b: "i + 1 \<le> p \<or> i + 1 - p \<le> 0" by simp
      have a: "0 < needed" using "1.prems"(1) by simp
      have "line_loop rd s needed n (i + 1) 0 \<noteq> Inr (Ended c')"
        using "1.IH"(2) [OF i_n Inr False a "1.prems"(2) "1.prems"(3) b] by simp
      then show ?thesis using i_n Inr False by (subst line_loop.simps) simp
    qed
  qed
qed

lemma line_loop_found:
  assumes "line_loop rd s needed n i c = Inr Found"
    and "c \<le> i" and "\<And>k. i - c \<le> k \<Longrightarrow> k < i \<Longrightarrow> rd k = Inr s"
  shows "\<exists>e. e < n \<and> needed \<le> e + 1 \<and> (\<forall>k. e + 1 - needed \<le> k \<and> k \<le> e \<longrightarrow> rd k = Inr s)"
  using assms
proof (induction rd s needed n i c rule: line_loop.induct)
  case (1 rd s needed n i c)
  from "1.prems"(1) have i_n: "i < n"
    by (subst (asm) line_loop.simps) (auto split: if_splits)
  show ?case
  proof (cases "rd i")
    case (Inl e)
    then show ?thesis using "1.prems"(1) i_n by (subst (asm) line_loop.simps) simp
  next
    case (Inr v)
    show ?thesis
    proof (cases "v = s")
      case True
      show ?thesis
      proof (cases "c + 1 = needed")
        case True
        have "\<forall>k. i + 1 - needed \<le> k \<and> k \<le> i \<longrightarrow> rd k = Inr s"
        proof (intro allI impI)
          fix k assume k: "i + 1 - needed \<le> k \<and> k \<le> i"
          show "rd k = Inr s"
          proof (cases "k = i")
            case True
            then show ?thesis using Inr \<open>v = s\<close> by simp
          next
            case False
            then show ?thesis using k True "1.prems"(2) "1.prems"(3) [of k] by auto
          qed
        qed
        moreover have "needed \<le> i + 1" using True "1.prems"(2) by simp
        ultimately show ?thesis using i_n by blast
      next
        case False
        have r: "line_loop rd s needed n (i + 1) (c + 1) = Inr Found"
          using "1.prems"(1) i_n Inr True False by (subst (asm) line_loop.simps) simp
        have "\<And>k. i + 1 - (c + 1) \<le> k \<Longrightarrow> k < i + 1 \<Longrightarrow> rd k = Inr s"
        proof -
          fix k assume "i + 1 - (c + 1) \<le> k" and "k < i + 1"
          then show "rd k = Inr s"
            using "1.prems"(3) [of k] Inr True by (cases "k = i") auto
        qed
        then show ?thesis
          using "1.IH"(1) [OF i_n Inr True False r] "1.prems"(2) by simp
      qed
    next
      case False
      have r: "line_loop rd s needed n (i + 1) 0 = Inr Found"
        using "1.prems"(1) i_n Inr False by (subst (asm) line_loop.simps) simp
      show ?thesis using "1.IH"(2) [OF i_n Inr False r] by simp
    qed
  qed
qed

lemma unat_uchar_less: "unat (x::uchar) < 256"
  using unsigned_less [of x, where 'a=nat] by simp

lemma uint_woi: "0 \<le> i \<Longrightarrow> i < 256 \<Longrightarrow> uint (word_of_int i :: uchar) = i"
  by (simp add: uint_word_of_int)

lemma uint_woi_neg: "- 256 \<le> i \<Longrightarrow> i < 0 \<Longrightarrow> uint (word_of_int i :: uchar) = i + 256"
proof -
  assume a: "- 256 \<le> i" "i < 0"
  have "uint (word_of_int i :: uchar) = i mod 256" by (simp add: uint_word_of_int)
  also have "\<dots> = (i + 256) mod 256" by simp
  also have "\<dots> = i + 256" using a by (intro mod_pos_pos_trivial) simp_all
  finally show ?thesis .
qed

lemma board_get_int:
  assumes "0 \<le> i" "i < uint (size_b b)" "uint (size_b b) - 256 \<le> j" "j < 256"
  shows "board_get ob b (word_of_int i) (word_of_int j) =
     (case cell_at b i j of
        Some v \<Rightarrow> Inr v
      | None \<Rightarrow> (case ob (word_of_int i) (word_of_int j) of
                   None \<Rightarrow> Inl OUT_OF_RANGE | Some v \<Rightarrow> Inr v))"
proof -
  define n where "n = unat (size_b b)"
  define U where "U = uint (size_b b)"
  have U: "U = int n" unfolding U_def n_def by (simp add: uint_nat del: of_nat_unat)
  have n256: "n < 256" unfolding n_def by (rule unat_uchar_less)
  have iU: "i < U" and jU: "U - 256 \<le> j" using assms(2,3) unfolding U_def .
  have lo: "- 256 \<le> j" using jU U by linarith
  have i256: "i < 256" using iU U n256 by linarith
  have ui: "uint (word_of_int i :: uchar) = i" using assms(1) i256 by (rule uint_woi)
  have xi: "unat (word_of_int i :: uchar) = nat i"
    unfolding unat_eq_nat_uint ui ..
  have xn: "nat i < n" using assms(1) iU U by linarith
  show ?thesis
  proof (cases "0 \<le> j \<and> j < U")
    case True
    then have j256: "0 \<le> j" "j < 256" using assms(4) by simp_all
    have uj: "uint (word_of_int j :: uchar) = j" using j256 by (rule uint_woi)
    have yj: "unat (word_of_int j :: uchar) = nat j" unfolding unat_eq_nat_uint uj ..
    have yn: "nat j < n" using True U by linarith
    have idx: "cell_index b (word_of_int i) (word_of_int j) = nat j * n + nat i"
      unfolding cell_index_def xi yj n_def ..
    have "nat j * n + nat i < n * n" using xn yn by (rule flat_index_less)
    then have "board_get ob b (word_of_int i) (word_of_int j) = Inr (grid b ! (nat j * n + nat i))"
      unfolding board_get_def idx unfolding n_def by (simp only: if_True)
    moreover have "cell_at b i j = Some (grid b ! (nat j * n + nat i))"
      using True assms(1) iU unfolding cell_at_def U_def n_def by (simp only: simp_thms if_True)
    ultimately show ?thesis by (simp only: option.case)
  next
    case False
    have "\<exists>m. unat (word_of_int j :: uchar) = m \<and> n \<le> m"
    proof (cases "0 \<le> j")
      case True
      have uj: "uint (word_of_int j :: uchar) = j" using True assms(4) by (rule uint_woi)
      have "unat (word_of_int j :: uchar) = nat j" unfolding unat_eq_nat_uint uj ..
      moreover have "n \<le> nat j" using True False U by linarith
      ultimately show ?thesis by blast
    next
      case neg: False
      then have "j < 0" by simp
      with lo have uj: "uint (word_of_int j :: uchar) = j + 256" by (rule uint_woi_neg)
      have "unat (word_of_int j :: uchar) = nat (j + 256)" unfolding unat_eq_nat_uint uj ..
      moreover have "n \<le> nat (j + 256)" using jU U by linarith
      ultimately show ?thesis by blast
    qed
    then obtain m where m: "unat (word_of_int j :: uchar) = m" and nm: "n \<le> m" by blast
    have idx: "cell_index b (word_of_int i) (word_of_int j) = m * n + nat i"
      unfolding cell_index_def xi m n_def ..
    have "\<not> m * n + nat i < n * n" using nm by (rule flat_index_ge)
    then have "board_get ob b (word_of_int i) (word_of_int j) =
        (case ob (word_of_int i) (word_of_int j) of None \<Rightarrow> Inl OUT_OF_RANGE | Some v \<Rightarrow> Inr v)"
      unfolding board_get_def idx unfolding n_def by (simp only: if_False)
    moreover have "cell_at b i j = None"
      using False unfolding cell_at_def U_def by (simp only: simp_thms if_False)
    ultimately show ?thesis by (simp only: option.case)
  qed
qed

lemma unat_add_of_nat:
  "unat (x::uchar) + k < 256 \<Longrightarrow> unat (x + of_nat k) = unat x + k"
  by (simp add: unat_word_ariths unat_of_nat)

lemma vertical_loop_cells:
  "vertical_loop ob g x needed i c =
     line_loop (line_cell ob (board g) (uint x, 0) (0, 1)) (stone g) needed
       (unat (size_b (board g))) i c"
proof -
  have "line_cell ob (board g) (uint x, 0) (0, 1) = (\<lambda>k. board_get ob (board g) x (of_nat k))"
    by (rule ext) (simp add: line_cell_def)
  then show ?thesis by (simp add: vertical_loop_line)
qed

lemma horizontal_loop_cells:
  "horizontal_loop ob g y needed i c =
     line_loop (line_cell ob (board g) (0, uint y) (1, 0)) (stone g) needed
       (unat (size_b (board g))) i c"
proof -
  have "line_cell ob (board g) (0, uint y) (1, 0) = (\<lambda>k. board_get ob (board g) (of_nat k) y)"
    by (rule ext) (simp add: line_cell_def)
  then show ?thesis by (simp add: horizontal_loop_line)
qed

lemma diagonal_down_loop_cells:
  assumes "N = min (unat (size_b (board g)) - unat x0) (unat (size_b (board g)) - unat y0)"
    and "k \<le> N"
  shows "diagonal_down_loop ob g needed (x0 + of_nat k) (y0 + of_nat k) c =
     line_loop (line_cell ob (board g) (uint x0, uint y0) (1, 1)) (stone g) needed N k c"
  using assms(2)
proof (induction "N - k" arbitrary: k c)
  case 0
  then have k: "k = N" by simp
  let ?n = "unat (size_b (board g))"
  have "\<not> (y0 + of_nat k < size_b (board g) \<and> x0 + of_nat k < size_b (board g))"
  proof (cases "?n - unat x0 \<le> ?n - unat y0")
    case True
    then have N: "N = ?n - unat x0" using assms(1) by simp
    show ?thesis
    proof (cases "unat x0 \<le> ?n")
      case True
      have "?n < 256" by (rule unat_uchar_less)
      then have "unat (x0 + of_nat k) = ?n" using k N True by (simp add: unat_add_of_nat)
      then show ?thesis by (simp add: word_less_nat_alt)
    next
      case False
      then have "k = 0" using k N by simp
      then show ?thesis using False by (simp add: word_less_nat_alt)
    qed
  next
    case False
    then have N: "N = ?n - unat y0" using assms(1) by simp
    show ?thesis
    proof (cases "unat y0 \<le> ?n")
      case True
      have "?n < 256" by (rule unat_uchar_less)
      then have "unat (y0 + of_nat k) = ?n" using k N True by (simp add: unat_add_of_nat)
      then show ?thesis by (simp add: word_less_nat_alt)
    next
      case False
      then have "k = 0" using k N by simp
      then show ?thesis using False by (simp add: word_less_nat_alt)
    qed
  qed
  then show ?case using k
    by (subst diagonal_down_loop.simps, subst line_loop.simps) auto
next
  case (Suc m)
  then have k: "k < N" by simp
  let ?n = "unat (size_b (board g))"
  have n: "?n < 256" by (rule unat_uchar_less)
  have kx: "unat x0 + k < ?n" and ky: "unat y0 + k < ?n" using k assms(1) by linarith+
  have "unat (x0 + of_nat k) = unat x0 + k" "unat (y0 + of_nat k) = unat y0 + k"
    using kx ky n by (simp_all add: unat_add_of_nat)
  then have cond: "y0 + of_nat k < size_b (board g) \<and> x0 + of_nat k < size_b (board g)"
    using kx ky by (simp add: word_less_nat_alt)
  have eq: "x0 + of_nat k = word_of_int (uint x0 + int k * 1)"
           "y0 + of_nat k = word_of_int (uint y0 + int k * 1)"
    by simp_all
  have step: "x0 + of_nat k + 1 = x0 + of_nat (k + 1)" "y0 + of_nat k + 1 = y0 + of_nat (k + 1)"
    by simp_all
  have ih: "\<And>c. diagonal_down_loop ob g needed (x0 + of_nat (k + 1)) (y0 + of_nat (k + 1)) c =
     line_loop (line_cell ob (board g) (uint x0, uint y0) (1, 1)) (stone g) needed N (k + 1) c"
    using Suc.hyps(1) [of "k + 1"] Suc.hyps(2) k by simp
  show ?case
    apply (subst diagonal_down_loop.simps)
    apply (subst line_loop.simps)
    using cond k ih
    by (simp add: step line_cell_def split: sum.splits)
qed

lemma diagonal_up_loop_cells:
  assumes "N = unat (size_b (board g)) - unat x0"
    and "k \<le> N"
  shows "diagonal_up_loop ob g needed (x0 + of_nat k) (y0 - of_nat k) c =
     line_loop (line_cell ob (board g) (uint x0, uint y0) (1, - 1)) (stone g) needed N k c"
  using assms(2)
proof (induction "N - k" arbitrary: k c)
  case 0
  then have k: "k = N" by simp
  let ?n = "unat (size_b (board g))"
  have "\<not> (x0 + of_nat k < size_b (board g))"
  proof (cases "unat x0 \<le> ?n")
    case True
    have "?n < 256" by (rule unat_uchar_less)
    then have "unat (x0 + of_nat k) = ?n" using k assms(1) True by (simp add: unat_add_of_nat)
    then show ?thesis by (simp add: word_less_nat_alt)
  next
    case False
    then have "k = 0" using k assms(1) by simp
    then show ?thesis using False by (simp add: word_less_nat_alt)
  qed
  then show ?case using k
    by (subst diagonal_up_loop.simps, subst line_loop.simps) auto
next
  case (Suc m)
  then have k: "k < N" by simp
  let ?n = "unat (size_b (board g))"
  have n: "?n < 256" by (rule unat_uchar_less)
  have kx: "unat x0 + k < ?n" using k assms(1) by linarith
  have "unat (x0 + of_nat k) = unat x0 + k"
    using kx n by (simp add: unat_add_of_nat)
  then have cond: "y0 - of_nat k \<ge> 0 \<and> x0 + of_nat k < size_b (board g)"
    using kx by (simp add: word_less_nat_alt)
  have step: "x0 + of_nat k + 1 = x0 + of_nat (k + 1)" "y0 - of_nat k - 1 = y0 - of_nat (k + 1)"
    by simp_all
  have ih: "\<And>c. diagonal_up_loop ob g needed (x0 + of_nat (k + 1)) (y0 - of_nat (k + 1)) c =
     line_loop (line_cell ob (board g) (uint x0, uint y0) (1, - 1)) (stone g) needed N (k + 1) c"
    using Suc.hyps(1) [of "k + 1"] Suc.hyps(2) k by simp
  show ?case
    apply (subst diagonal_up_loop.simps)
    apply (subst line_loop.simps)
    using cond k ih
    by (simp add: step line_cell_def split: sum.splits)
qed

lemma diagonal_down_start_unat:
  "diagonal_down_start x y = (x0, y0) \<Longrightarrow>
     unat x0 = unat x - min (unat x) (unat y) \<and> unat y0 = unat y - min (unat x) (unat y)"
proof (induction x y rule: diagonal_down_start.induct)
  case (1 x y)
  show ?case
  proof (cases "y > 0 \<and> x > 0")
    case True
    then have nz: "x \<noteq> 0" "y \<noteq> 0" by auto
    then have u: "unat (x - 1) = unat x - 1" "unat (y - 1) = unat y - 1"
      by (simp_all add: unat_minus_one)
    have p: "0 < unat x" "0 < unat y" using nz by (simp_all add: unat_gt_0)
    from "1.prems" True have "diagonal_down_start (x - 1) (y - 1) = (x0, y0)"
      by (subst (asm) diagonal_down_start.simps) simp
    from "1.IH" [OF True this] u p show ?thesis by (auto simp: min_def)
  next
    case False
    then have "unat x = 0 \<or> unat y = 0" by (auto simp: word_greater_zero_iff unat_eq_zero)
    moreover from "1.prems" False have "x0 = x" "y0 = y"
      by (subst (asm) diagonal_down_start.simps, simp)+
    ultimately show ?thesis by auto
  qed
qed

lemma diagonal_up_start_unat:
  "y \<le> sz \<Longrightarrow> diagonal_up_start sz x y = (x0, y0) \<Longrightarrow>
     unat x0 = unat x - min (unat x) (unat sz - unat y)
     \<and> unat y0 = unat y + min (unat x) (unat sz - unat y)"
proof (induction sz x y rule: diagonal_up_start.induct)
  case (1 sz x y)
  show ?case
  proof (cases "y < sz \<and> x > 0")
    case True
    then have nz: "x \<noteq> 0" by auto
    then have u: "unat (x - 1) = unat x - 1" by (simp add: unat_minus_one)
    have p: "0 < unat x" using nz by (simp add: unat_gt_0)
    have v: "unat (y + 1) = unat y + 1" using True unat_succ [of y sz] by simp
    have lt: "unat y < unat sz" using True by (simp add: word_less_nat_alt)
    then have le: "y + 1 \<le> sz" using v by (simp add: word_le_nat_alt)
    from "1.prems"(2) True have "diagonal_up_start sz (x - 1) (y + 1) = (x0, y0)"
      by (subst (asm) diagonal_up_start.simps) simp
    from "1.IH" [OF True le this] u v p lt show ?thesis by (auto simp: min_def)
  next
    case False
    then have "unat x = 0 \<or> unat sz - unat y = 0"
      using "1.prems"(1) by (auto simp: word_greater_zero_iff unat_eq_zero word_less_nat_alt)
    moreover from "1.prems"(2) False have "x0 = x" "y0 = y"
      by (subst (asm) diagonal_up_start.simps, simp)+
    ultimately show ?thesis by auto
  qed
qed

lemma line_loop_ended:
  "line_loop rd s needed n i c = Inr (Ended c') \<Longrightarrow> c < needed \<Longrightarrow> c' < needed"
proof (induction rd s needed n i c rule: line_loop.induct)
  case (1 rd s needed n i c)
  show ?case
  proof (cases "i < n")
    case False
    then show ?thesis using "1.prems" by (subst (asm) line_loop.simps) simp
  next
    case True
    note i_n = this
    show ?thesis
    proof (cases "rd i")
      case (Inl e)
      then show ?thesis using "1.prems" i_n by (subst (asm) line_loop.simps) simp
    next
      case (Inr v)
      show ?thesis
      proof (cases "v = s")
        case True
        show ?thesis
        proof (cases "c + 1 = needed")
          case True
          then show ?thesis using "1.prems" i_n Inr \<open>v = s\<close>
            by (subst (asm) line_loop.simps) simp
        next
          case False
          have r: "line_loop rd s needed n (i + 1) (c + 1) = Inr (Ended c')"
            using "1.prems"(1) i_n Inr True False by (subst (asm) line_loop.simps) simp
          have "c + 1 < needed" using False "1.prems"(2) by simp
          from "1.IH"(1) [OF i_n Inr True False r this] show ?thesis .
        qed
      next
        case False
        have r: "line_loop rd s needed n (i + 1) 0 = Inr (Ended c')"
          using "1.prems"(1) i_n Inr False by (subst (asm) line_loop.simps) simp
        have "0 < needed" using "1.prems"(2) by simp
        from "1.IH"(2) [OF i_n Inr False r this] show ?thesis .
      qed
    qed
  qed
qed

lemma board_ok_size:
  assumes "board_ok b"
  shows "unat (size_b b) \<le> 19" and "uint (size_b b) = int (unat (size_b b))"
    and "0 < unat (size_b b)" and "uint (size_b b) \<le> 19"
  using assms by (auto simp: board_ok_def)

lemma step_of_range:
  "fst (step_of a) \<in> {0, 1}" "snd (step_of a) \<in> {- 1, 0, 1}"
  by (cases a; simp)+

lemma line_cell_value:
  assumes ok: "board_ok b"
    and st: "0 \<le> fst st" "fst st \<le> uint (size_b b)" "0 \<le> snd st" "snd st \<le> uint (size_b b)"
    and k: "k < N" "N \<le> unat (size_b b)"
    and xin: "fst st + int k * fst (step_of a) < uint (size_b b)"
  shows "line_cell ob b st (step_of a) k =
     (case cell_at b (fst st + int k * fst (step_of a)) (snd st + int k * snd (step_of a)) of
        Some v \<Rightarrow> Inr v
      | None \<Rightarrow>
          (case ob (word_of_int (fst st + int k * fst (step_of a)))
                   (word_of_int (snd st + int k * snd (step_of a))) of
             None \<Rightarrow> Inl OUT_OF_RANGE | Some v \<Rightarrow> Inr v))"
proof -
  let ?n = "uint (size_b b)"
  have n: "?n \<le> 19" "0 \<le> ?n" using board_ok_size(4) [OF ok] by simp_all
  have kk: "int k < 19" using k board_ok_size(1) [OF ok] by simp
  have dx: "fst (step_of a) = 0 \<or> fst (step_of a) = 1" using step_of_range(1) [of a] by simp
  have dy: "snd (step_of a) = - 1 \<or> snd (step_of a) = 0 \<or> snd (step_of a) = 1"
    using step_of_range(2) [of a] by simp
  have bx: "0 \<le> fst st + int k * fst (step_of a)"
    using dx st by auto
  have "by": "?n - 256 \<le> snd st + int k * snd (step_of a)" "snd st + int k * snd (step_of a) < 256"
    using dy st n kk by auto
  show ?thesis unfolding line_cell_def by (rule board_get_int [OF bx xin "by"])
qed

lemma run_from_cells:
  "run_from b s len a i j \<longleftrightarrow>
     (\<forall>k<len. cell_at b (i + int k * fst (step_of a)) (j + int k * snd (step_of a)) = Some s)"
  by (auto simp: run_from_def list_all_iff)

lemma line_scan_finds:
  assumes ok: "board_ok b"
    and st: "0 \<le> fst st" "fst st \<le> uint (size_b b)" "0 \<le> snd st" "snd st \<le> uint (size_b b)"
    and N: "N \<le> unat (size_b b)"
    and xin: "\<And>k. k < N \<Longrightarrow> fst st + int k * fst (step_of a) < uint (size_b b)"
    and run: "run_from b s len a (fst st + int p * fst (step_of a)) (snd st + int p * snd (step_of a))"
    and p: "p + len \<le> N" and c: "c < len"
  shows "line_loop (line_cell ob b st (step_of a)) s len N 0 c \<noteq> Inr (Ended c')"
proof (rule line_loop_finds [OF c p])
  fix k assume k: "p \<le> k" "k < p + len"
  then have kN: "k < N" using p by simp
  from k obtain q where q: "k = p + q" "q < len" by (metis le_Suc_ex nat_add_left_cancel_less)
  have "cell_at b (fst st + int p * fst (step_of a) + int q * fst (step_of a))
          (snd st + int p * snd (step_of a) + int q * snd (step_of a)) = Some s"
    using run q(2) by (simp add: run_from_cells)
  then have "cell_at b (fst st + int k * fst (step_of a)) (snd st + int k * snd (step_of a)) = Some s"
    using q(1) by (simp add: algebra_simps)
  then show "line_cell ob b st (step_of a) k = Inr s"
    using line_cell_value [OF ok st kN N xin [OF kN], of ob] by simp
qed simp

lemma line_scan_found:
  assumes ok: "board_ok b"
    and st: "0 \<le> fst st" "fst st \<le> uint (size_b b)" "0 \<le> snd st" "snd st \<le> uint (size_b b)"
    and N: "N \<le> unat (size_b b)"
    and xin: "\<And>k. k < N \<Longrightarrow> fst st + int k * fst (step_of a) < uint (size_b b)"
    and found: "line_loop (line_cell ob b st (step_of a)) s len N 0 0 = Inr Found"
    and clean: "\<And>u v. ob u v \<noteq> Some s"
  shows "\<exists>p. p + len \<le> N \<and>
     run_from b s len a (fst st + int p * fst (step_of a)) (snd st + int p * snd (step_of a))"
proof -
  from line_loop_found [OF found] obtain e where e: "e < N" "len \<le> e + 1"
    and cells: "\<And>k. e + 1 - len \<le> k \<Longrightarrow> k \<le> e \<Longrightarrow> line_cell ob b st (step_of a) k = Inr s"
    by auto
  let ?p = "e + 1 - len"
  have "cell_at b (fst st + int ?p * fst (step_of a) + int q * fst (step_of a))
          (snd st + int ?p * snd (step_of a) + int q * snd (step_of a)) = Some s" if q: "q < len" for q
  proof -
    have kN: "?p + q < N" and r: "?p \<le> ?p + q" "?p + q \<le> e" using e q by simp_all
    from cells [OF r] line_cell_value [OF ok st kN N xin [OF kN], of ob] clean
    have "cell_at b (fst st + int (?p + q) * fst (step_of a))
            (snd st + int (?p + q) * snd (step_of a)) = Some s"
      by (auto split: option.splits)
    then show ?thesis by (simp add: algebra_simps)
  qed
  then have "run_from b s len a (fst st + int ?p * fst (step_of a)) (snd st + int ?p * snd (step_of a))"
    by (simp add: run_from_cells)
  moreover have "?p + len \<le> N" using e by simp
  ultimately show ?thesis by blast
qed

lemma axis_loop_line:
  assumes ok: "board_ok (board g)" and x: "x < size_b (board g)" and y: "y < size_b (board g)"
  shows "\<exists>st N idx.
     (\<forall>needed c. axis_loop ob g a needed x y c =
        line_loop (line_cell ob (board g) st (step_of a)) (stone g) needed N 0 c)
     \<and> 0 \<le> fst st \<and> fst st \<le> uint (size_b (board g))
     \<and> 0 \<le> snd st \<and> snd st \<le> uint (size_b (board g))
     \<and> N \<le> unat (size_b (board g)) \<and> idx \<le> unat (size_b (board g))
     \<and> (\<forall>k<N. fst st + int k * fst (step_of a) < uint (size_b (board g)))
     \<and> fst st + int idx * fst (step_of a) = uint x
     \<and> snd st + int idx * snd (step_of a) = uint y
     \<and> (\<forall>q. cell_at (board g) (uint x + q * fst (step_of a)) (uint y + q * snd (step_of a)) \<noteq> None
            \<longrightarrow> 0 \<le> int idx + q \<and> int idx + q < int N)"
proof -
  let ?b = "board g" and ?n = "unat (size_b (board g))"
  have X: "unat x < ?n" and Y: "unat y < ?n" using x y by (simp_all add: word_less_nat_alt)
  show ?thesis
  proof (cases a)
    case Vertical
    show ?thesis
      apply (rule exI [of _ "(uint x, 0)"], rule exI [of _ ?n], rule exI [of _ "unat y"])
      using X Y Vertical
      by (auto simp add: axis_loop_def vertical_loop_cells cell_at_def uint_nat
          simp del: of_nat_unat split: if_splits)
  next
    case Horizontal
    show ?thesis
      apply (rule exI [of _ "(0, uint y)"], rule exI [of _ ?n], rule exI [of _ "unat x"])
      using X Y Horizontal
      by (auto simp add: axis_loop_def horizontal_loop_cells cell_at_def uint_nat
          simp del: of_nat_unat split: if_splits)
  next
    case DiagonalDown
    obtain x0 y0 where s0: "diagonal_down_start x y = (x0, y0)" by (cases "diagonal_down_start x y")
    let ?m = "min (unat x) (unat y)"
    from diagonal_down_start_unat [OF s0]
    have u0: "unat x0 = unat x - ?m" "unat y0 = unat y - ?m" by simp_all
    let ?N = "min (?n - unat x0) (?n - unat y0)"
    have loop: "diagonal_down_loop ob g needed x0 y0 c =
        line_loop (line_cell ob ?b (uint x0, uint y0) (1, 1)) (stone g) needed ?N 0 c" for needed c
      using diagonal_down_loop_cells [of ?N g x0 y0 0 ob needed c] by simp
    show ?thesis
      apply (rule exI [of _ "(uint x0, uint y0)"], rule exI [of _ ?N], rule exI [of _ ?m])
      using X Y DiagonalDown s0 u0 loop
      apply (simp add: axis_loop_def cell_at_def uint_nat del: of_nat_unat)
      by (auto simp add: min_def simp del: of_nat_unat split: if_splits)
  next
    case DiagonalUp
    obtain x0 y0 where s0: "diagonal_up_start (size_b ?b) x y = (x0, y0)"
      by (cases "diagonal_up_start (size_b ?b) x y")
    let ?m = "min (unat x) (?n - unat y)"
    have "y \<le> size_b ?b" using y by simp
    from diagonal_up_start_unat [OF this s0]
    have u0: "unat x0 = unat x - ?m" "unat y0 = unat y + ?m" by simp_all
    let ?N = "?n - unat x0"
    have loop: "diagonal_up_loop ob g needed x0 y0 c =
        line_loop (line_cell ob ?b (uint x0, uint y0) (1, - 1)) (stone g) needed ?N 0 c" for needed c
      using diagonal_up_loop_cells [of ?N g x0 0 ob needed y0 c] by simp
    show ?thesis
      apply (rule exI [of _ "(uint x0, uint y0)"], rule exI [of _ ?N], rule exI [of _ ?m])
      using X Y DiagonalUp s0 u0 loop
      apply (simp add: axis_loop_def cell_at_def uint_nat del: of_nat_unat)
      by (auto simp add: min_def simp del: of_nat_unat split: if_splits)
  qed
qed

lemma axis_loop_finds:
  assumes ok: "board_ok (board g)" and x: "x < size_b (board g)" and y: "y < size_b (board g)"
    and run: "run_through (board g) (stone g) len a x y" and c: "c < len"
  shows "axis_loop ob g a len x y c \<noteq> Inr (Ended c')"
proof -
  let ?dx = "fst (step_of a)" and ?dy = "snd (step_of a)"
  from axis_loop_line [OF ok x y, of ob a] obtain st N idx where
    eq: "\<And>needed c. axis_loop ob g a needed x y c =
        line_loop (line_cell ob (board g) st (step_of a)) (stone g) needed N 0 c"
    and st: "0 \<le> fst st" "fst st \<le> uint (size_b (board g))"
            "0 \<le> snd st" "snd st \<le> uint (size_b (board g))"
    and N: "N \<le> unat (size_b (board g))"
    and xin: "\<And>k. k < N \<Longrightarrow> fst st + int k * ?dx < uint (size_b (board g))"
    and pos: "fst st + int idx * ?dx = uint x" "snd st + int idx * ?dy = uint y"
    and cover: "\<And>q. cell_at (board g) (uint x + q * ?dx) (uint y + q * ?dy) \<noteq> None
            \<Longrightarrow> 0 \<le> int idx + q \<and> int idx + q < int N"
    by blast
  from run obtain t where t: "t < len"
    and r: "run_from (board g) (stone g) len a (uint x - int t * ?dx) (uint y - int t * ?dy)"
    by (auto simp: run_through_def list_ex_iff)
  have len: "0 < len" using c by simp
  have cells: "cell_at (board g) (uint x - int t * ?dx + int k * ?dx)
                 (uint y - int t * ?dy + int k * ?dy) = Some (stone g)" if "k < len" for k
    using r that by (simp add: run_from_cells)
  have first: "cell_at (board g) (uint x + (- int t) * ?dx) (uint y + (- int t) * ?dy) \<noteq> None"
    using cells [of 0] len by simp
  have last: "cell_at (board g) (uint x + (int (len - 1) - int t) * ?dx)
                 (uint y + (int (len - 1) - int t) * ?dy) \<noteq> None"
    using cells [of "len - 1"] len by (simp add: algebra_simps)
  from cover [OF first] have t_le: "t \<le> idx" by simp
  from cover [OF last] have fits: "idx - t + len \<le> N" using t_le len by simp
  have start: "fst st + int (idx - t) * ?dx = uint x - int t * ?dx"
              "snd st + int (idx - t) * ?dy = uint y - int t * ?dy"
    using pos t_le by (simp_all add: algebra_simps of_nat_diff)
  have "run_from (board g) (stone g) len a (fst st + int (idx - t) * ?dx)
          (snd st + int (idx - t) * ?dy)"
    using r start by simp
  from line_scan_finds [OF ok st N xin this fits c] show ?thesis by (simp add: eq)
qed

lemma axis_loop_found:
  assumes ok: "board_ok (board g)" and x: "x < size_b (board g)" and y: "y < size_b (board g)"
    and found: "axis_loop ob g a len x y 0 = Inr Found"
    and clean: "\<And>u v. ob u v \<noteq> Some (stone g)"
  shows "run_on_line (board g) (stone g) len a x y"
proof -
  let ?dx = "fst (step_of a)" and ?dy = "snd (step_of a)"
  let ?n = "unat (size_b (board g))"
  from axis_loop_line [OF ok x y, of ob a] obtain st N idx where
    eq: "\<And>needed c. axis_loop ob g a needed x y c =
        line_loop (line_cell ob (board g) st (step_of a)) (stone g) needed N 0 c"
    and st: "0 \<le> fst st" "fst st \<le> uint (size_b (board g))"
            "0 \<le> snd st" "snd st \<le> uint (size_b (board g))"
    and N: "N \<le> ?n" and idx: "idx \<le> ?n"
    and xin: "\<And>k. k < N \<Longrightarrow> fst st + int k * ?dx < uint (size_b (board g))"
    and pos: "fst st + int idx * ?dx = uint x" "snd st + int idx * ?dy = uint y"
    by blast
  from found have "line_loop (line_cell ob (board g) st (step_of a)) (stone g) len N 0 0 = Inr Found"
    by (simp add: eq)
  from line_scan_found [OF ok st N xin this clean] obtain p where p: "p + len \<le> N"
    and r: "run_from (board g) (stone g) len a (fst st + int p * ?dx) (snd st + int p * ?dy)"
    by blast
  let ?t = "p + ?n - idx"
  have t: "?t < 2 * ?n + 1" using p N by simp
  have td: "int ?t - uint (size_b (board g)) = int p - int idx"
    using idx by (simp add: uint_nat of_nat_diff del: of_nat_unat)
  have e1: "uint x + (int p - int idx) * ?dx = fst st + int p * ?dx"
    using pos(1) [symmetric] by (simp add: algebra_simps)
  have e2: "uint y + (int p - int idx) * ?dy = snd st + int p * ?dy"
    using pos(2) [symmetric] by (simp add: algebra_simps)
  have "uint x + (int ?t - uint (size_b (board g))) * ?dx = fst st + int p * ?dx"
       "uint y + (int ?t - uint (size_b (board g))) * ?dy = snd st + int p * ?dy"
    unfolding td by (rule e1, rule e2)
  then have r': "run_from (board g) (stone g) len a
          (uint x + (int ?t - uint (size_b (board g))) * ?dx)
          (uint y + (int ?t - uint (size_b (board g))) * ?dy)"
    using r by simp
  have mem: "?t \<in> set [0..<2 * ?n + 1]" using t by auto
  show ?thesis unfolding run_on_line_def list_ex_iff using mem r' by blast
qed

lemma axis_loop_ended:
  assumes ok: "board_ok (board g)" and x: "x < size_b (board g)" and y: "y < size_b (board g)"
    and e: "axis_loop ob g a needed x y c = Inr (Ended c')" and c: "c < needed"
  shows "c' < needed"
proof -
  from axis_loop_line [OF ok x y, of ob a] obtain st N where
    eq: "\<And>needed c. axis_loop ob g a needed x y c =
        line_loop (line_cell ob (board g) st (step_of a)) (stone g) needed N 0 c"
    by blast
  from e c show ?thesis unfolding eq by (rule line_loop_ended)
qed

lemma line_win_axis:
  "line_win ob g x y =
     orelse (found (axis_loop ob g Vertical 5 x y 0))
       (orelse (found (axis_loop ob g Horizontal 5 x y 0))
          (orelse (found (axis_loop ob g DiagonalDown 5 x y 0))
                  (found (axis_loop ob g DiagonalUp 5 x y 0))))"
  by (simp add: line_win_def verticalWin_def horizontalWin_def diagonalDownWin_def
      diagonalUpWin_def axis_loop_def split: prod.splits)

lemma line_win_finds:
  assumes ok: "board_ok (board g)" and x: "x < size_b (board g)" and y: "y < size_b (board g)"
    and run: "run_through (board g) (stone g) 5 a x y"
  shows "line_win ob g x y \<noteq> Inr False"
proof -
  have "axis_loop ob g a 5 x y 0 \<noteq> Inr (Ended c')" for c'
    by (rule axis_loop_finds [OF ok x y run]) simp
  then show ?thesis
    by (cases a) (auto simp: line_win_axis orelse_def found_def split: sum.splits scan.splits)
qed

lemma line_win_found:
  assumes ok: "board_ok (board g)" and x: "x < size_b (board g)" and y: "y < size_b (board g)"
    and won: "line_win ob g x y = Inr True"
    and clean: "\<And>u v. ob u v \<noteq> Some (stone g)"
  shows "list_ex (\<lambda>a. run_on_line (board g) (stone g) 5 a x y) axes"
proof -
  from won have "\<exists>a. axis_loop ob g a 5 x y 0 = Inr Found"
    by (auto simp: line_win_axis orelse_def found_def split: sum.splits scan.splits if_splits)
  then obtain a where "axis_loop ob g a 5 x y 0 = Inr Found" ..
  from axis_loop_found [OF ok x y this clean] have "run_on_line (board g) (stone g) 5 a x y" .
  moreover have "a \<in> set axes" by (cases a) (simp_all add: axes_def)
  ultimately show ?thesis by (auto simp: list_ex_iff)
qed

lemma overline_axis:
  "overline ob g x y =
     (case axis_loop ob g Vertical 6 x y 0 of
        Inl e \<Rightarrow> Inl e
      | Inr Found \<Rightarrow> Inr True
      | Inr (Ended c1) \<Rightarrow>
     (case axis_loop ob g Horizontal 6 x y 0 of
        Inl e \<Rightarrow> Inl e
      | Inr Found \<Rightarrow> Inr True
      | Inr (Ended c2) \<Rightarrow>
     (case axis_loop ob g DiagonalDown 6 x y c2 of
        Inl e \<Rightarrow> Inl e
      | Inr Found \<Rightarrow> Inr True
      | Inr (Ended c3) \<Rightarrow> found (axis_loop ob g DiagonalUp 6 x y c3))))"
  by (auto simp: overline_def axis_loop_def split: sum.splits scan.splits prod.splits)

lemma overline_finds:
  assumes ok: "board_ok (board g)" and x: "x < size_b (board g)" and y: "y < size_b (board g)"
    and run: "run_through (board g) (stone g) 6 a x y"
  shows "overline ob g x y \<noteq> Inr False"
proof -
  have f: "axis_loop ob g a 6 x y c \<noteq> Inr (Ended c')" if "c < 6" for c c'
    by (rule axis_loop_finds [OF ok x y run that])
  have e: "c' < 6" if "axis_loop ob g a' 6 x y c = Inr (Ended c')" and "c < 6" for a' c c'
    by (rule axis_loop_ended [OF ok x y that])
  show ?thesis
  proof (cases a)
    case Vertical
    then show ?thesis using f [of 0]
      by (auto simp: overline_axis found_def split: sum.splits scan.splits)
  next
    case Horizontal
    then show ?thesis using f [of 0]
      by (auto simp: overline_axis found_def split: sum.splits scan.splits)
  next
    case DiagonalDown
    then show ?thesis using f e [of Horizontal 0]
      by (auto simp: overline_axis found_def split: sum.splits scan.splits)
  next
    case DiagonalUp
    show ?thesis
    proof
      assume o: "overline ob g x y = Inr False"
      then obtain c1 c2 c3 where
        "axis_loop ob g Horizontal 6 x y 0 = Inr (Ended c2)"
        "axis_loop ob g DiagonalDown 6 x y c2 = Inr (Ended c3)"
        "found (axis_loop ob g DiagonalUp 6 x y c3) = Inr False"
        by (auto simp: overline_axis split: sum.splits scan.splits)
      moreover from this have "c2 < 6" "c3 < 6" using e [of Horizontal 0 c2] e [of DiagonalDown c2 c3]
        by simp_all
      ultimately show False using f [of c3] DiagonalUp
        by (auto simp: found_def split: sum.splits scan.splits)
    qed
  qed
qed

lemma axis_loop_cong:
  assumes "board g1 = board g2" and "stone g1 = stone g2"
  shows "axis_loop ob g1 a needed x y c = axis_loop ob g2 a needed x y c"
proof (cases a)
  case Vertical
  then show ?thesis using assms by (simp add: axis_loop_def vertical_loop_cells)
next
  case Horizontal
  then show ?thesis using assms by (simp add: axis_loop_def horizontal_loop_cells)
next
  case DiagonalDown
  obtain x0 y0 where s: "diagonal_down_start x y = (x0, y0)" by (cases "diagonal_down_start x y")
  have "diagonal_down_loop ob g needed x0 y0 c =
      line_loop (line_cell ob (board g) (uint x0, uint y0) (1, 1)) (stone g) needed
        (min (unat (size_b (board g)) - unat x0) (unat (size_b (board g)) - unat y0)) 0 c" for g
    using diagonal_down_loop_cells [of _ g x0 y0 0 ob needed c] by simp
  then show ?thesis using assms DiagonalDown s by (simp add: axis_loop_def)
next
  case DiagonalUp
  obtain x0 y0 where s: "diagonal_up_start (size_b (board g2)) x y = (x0, y0)"
    by (cases "diagonal_up_start (size_b (board g2)) x y")
  have "diagonal_up_loop ob g needed x0 y0 c =
      line_loop (line_cell ob (board g) (uint x0, uint y0) (1, - 1)) (stone g) needed
        (unat (size_b (board g)) - unat x0) 0 c" for g
    using diagonal_up_loop_cells [of _ g x0 0 ob needed y0 c] by simp
  then show ?thesis using assms DiagonalUp s by (simp add: axis_loop_def)
qed

lemma line_win_cong:
  assumes "board g1 = board g2" and "stone g1 = stone g2"
  shows "line_win ob g1 x y = line_win ob g2 x y"
proof -
  have "\<And>a n c. axis_loop ob g1 a n x y c = axis_loop ob g2 a n x y c"
    by (rule axis_loop_cong [OF assms])
  then show ?thesis unfolding line_win_axis by simp
qed

lemma overline_cong:
  assumes "board g1 = board g2" and "stone g1 = stone g2"
  shows "overline ob g1 x y = overline ob g2 x y"
proof -
  have e: "\<And>a n c. axis_loop ob g1 a n x y c = axis_loop ob g2 a n x y c"
    by (rule axis_loop_cong [OF assms])
  show ?thesis unfolding overline_axis e ..
qed

lemma run_through_shorter:
  assumes "run_through b s (Suc len) a x y" and "0 < len"
  shows "run_through b s len a x y"
proof -
  let ?dx = "fst (step_of a)" and ?dy = "snd (step_of a)"
  from assms(1) have "\<exists>t\<in>set [0..<Suc len].
      run_from b s (Suc len) a (uint x - int t * ?dx) (uint y - int t * ?dy)"
    by (simp only: run_through_def list_ex_iff)
  then obtain t where tm: "t \<in> set [0..<Suc len]"
    and rf: "run_from b s (Suc len) a (uint x - int t * ?dx) (uint y - int t * ?dy)"
    by blast
  have t: "t < Suc len" using tm by (simp only: set_upt atLeastLessThan_iff)
  have c: "cell_at b (uint x - int t * ?dx + int k * ?dx) (uint y - int t * ?dy + int k * ?dy) = Some s"
    if "k < Suc len" for k
    using rf that unfolding run_from_cells by blast
  show ?thesis
  proof (cases "t < len")
    case True
    have "run_from b s len a (uint x - int t * ?dx) (uint y - int t * ?dy)"
      unfolding run_from_cells using c by (simp only: less_Suc_eq) blast
    moreover have "t \<in> set [0..<len]" using True by simp
    ultimately show ?thesis unfolding run_through_def list_ex_iff by blast
  next
    case False
    then have tl: "t = len" using t by simp
    have l1: "int (len - 1) = int len - 1" using assms(2) by (simp add: of_nat_diff)
    have "cell_at b (uint x - int (len - 1) * ?dx + int k * ?dx)
            (uint y - int (len - 1) * ?dy + int k * ?dy) = Some s" if k: "k < len" for k
    proof -
      have e1: "uint x - (int len - 1) * ?dx + int k * ?dx = uint x - int len * ?dx + (int k + 1) * ?dx"
        by (simp add: algebra_simps)
      have e2: "uint y - (int len - 1) * ?dy + int k * ?dy = uint y - int len * ?dy + (int k + 1) * ?dy"
        by (simp add: algebra_simps)
      have sk: "int (Suc k) = int k + 1" by simp
      have "Suc k < Suc len" using k by simp
      from c [OF this]
      have "cell_at b (uint x - int len * ?dx + (int k + 1) * ?dx)
              (uint y - int len * ?dy + (int k + 1) * ?dy) = Some s"
        unfolding tl sk .
      then show ?thesis unfolding l1 e1 e2 .
    qed
    then have "run_from b s len a (uint x - int (len - 1) * ?dx) (uint y - int (len - 1) * ?dy)"
      unfolding run_from_cells by blast
    moreover have "len - 1 \<in> set [0..<len]" using assms(2) by simp
    ultimately show ?thesis unfolding run_through_def list_ex_iff by blast
  qed
qed

lemma put_stone_board_ok:
  assumes "put_stone g x y = Inr g3" and "board_ok (board g)"
  shows "board_ok (board g3)" and "size_b (board g3) = size_b (board g)"
  using put_stone_cases [OF assms(1)] assms(2) by (simp_all add: board_ok_def)

lemma doubleOpenFours_won:
  "line_win ob g x y = Inr True \<Longrightarrow>
     doubleOpenFours ob g x y = Inr (g\<lparr>winner := stone g, state := GAME_STATE_FINISHED\<rparr>)"
  by (simp add: doubleOpenFours_def)

lemma doubleOpenFours_lost:
  "line_win ob g x y = Inr False \<Longrightarrow>
     doubleOpenFours ob g x y =
       (case open_fours ob g x y of
          Inl e \<Rightarrow> Inl e
        | Inr n \<Rightarrow>
            if n > ALLOWED_OPEN_FOURS
            then Inr (g\<lparr>state := GAME_STATE_FORBIDDEN, winner := WHITE_STONE\<rparr>)
            else Inr g)"
  by (simp add: doubleOpenFours_def)

lemma apply_rules_renju_black:
  "type g = GAME_RENJU \<Longrightarrow> stone g = BLACK_STONE \<Longrightarrow>
     apply_rules ob g x y =
       (case doubleOpenFours ob g x y of
           Inl e \<Rightarrow> Inl e
         | Inr g4 \<Rightarrow>
             if winner g4 = BLACK_STONE then
               (case overline ob g4 x y of
                  Inl e \<Rightarrow> Inl e
                | Inr over \<Rightarrow>
                    if over
                    then Inr (g4\<lparr>winner := WHITE_STONE, state := GAME_STATE_FORBIDDEN\<rparr>)
                    else Inr (g4\<lparr>stone := WHITE_STONE\<rparr>))
             else Inr (g4\<lparr>stone := WHITE_STONE\<rparr>))"
  by (simp add: apply_rules_def)

lemma apply_rules_playing:
  assumes "apply_rules ob g x y = Inr g'" and "state g' = GAME_STATE_PLAYING"
  shows "winner g' = winner g \<and> state g = GAME_STATE_PLAYING"
proof (cases "type g = GAME_RENJU \<and> stone g = BLACK_STONE")
  case True
  then have ty: "type g = GAME_RENJU" and st: "stone g = BLACK_STONE" by simp_all
  note q = assms(1) [unfolded apply_rules_renju_black [OF ty st]]
  from q obtain g4 where d: "doubleOpenFours ob g x y = Inr g4"
    by (cases "doubleOpenFours ob g x y") simp_all
  then obtain won where w: "line_win ob g x y = Inr won"
    by (cases "line_win ob g x y") (simp_all add: doubleOpenFours_def)
  show ?thesis
  proof (cases won)
    case True
    with w d have "g4 = g\<lparr>winner := stone g, state := GAME_STATE_FINISHED\<rparr>"
      by (simp add: doubleOpenFours_won)
    with q d assms(2) show ?thesis by (auto split: sum.splits if_splits)
  next
    case False
    with w have l: "line_win ob g x y = Inr False" by simp
    from d obtain n where n: "open_fours ob g x y = Inr n"
      by (cases "open_fours ob g x y") (simp_all add: doubleOpenFours_lost [OF l])
    from q d n assms(2) show ?thesis
      by (auto simp: doubleOpenFours_lost [OF l] split: sum.splits if_splits)
  qed
next
  case False
  with assms show ?thesis
    by (auto simp: apply_rules_def split: sum.splits if_splits)
qed

lemma played_winner:
  assumes "played g"
  shows "state g = GAME_STATE_PLAYING \<longrightarrow> winner g = EMPTY_INTERSECTION"
  using assms
proof (induction rule: played.induct)
  case (created sz ty g)
  then show ?case by (auto simp: game_create_def split: sum.splits)
next
  case (placed g ob x y r g')
  from game_place_stone_steps [OF placed.hyps(3)] show ?case
  proof
    assume "\<not> r \<and> g' = g"
    with placed.IH show ?thesis by simp
  next
    assume "r \<and> grid (board g) ! cell_index (board g) x y = EMPTY_INTERSECTION
          \<and> (\<exists>g3. put_stone g x y = Inr g3 \<and> apply_rules ob g3 x y = Inr g')"
    then obtain g3 where p: "put_stone g x y = Inr g3" and q: "apply_rules ob g3 x y = Inr g'"
      by blast
    show ?thesis
    proof
      assume "state g' = GAME_STATE_PLAYING"
      from apply_rules_playing [OF q this] put_stone_cases [OF p] placed.IH placed.hyps(2)
      show "winner g' = EMPTY_INTERSECTION" by simp
    qed
  qed
next
  case (stopped g)
  then show ?case by simp
qed

section \<open>Placing a stone returns\<close>

text \<open>
  When every read outside the grid yields some value, no scan fails: a placement at
  coordinates of the grid, by a game whose stone is Black or White, returns.
\<close>

lemma board_get_total:
  assumes "\<forall>u v. ob u v \<noteq> None"
  shows "\<exists>v. board_get ob b x y = Inr v"
proof (cases "cell_index b x y < unat (size_b b) * unat (size_b b)")
  case True
  then show ?thesis by (simp add: board_get_def)
next
  case False
  from assms have "ob x y \<noteq> None" by blast
  then obtain v where "ob x y = Some v" by blast
  with False show ?thesis by (simp add: board_get_def)
qed

lemma both_empty_total:
  assumes "\<forall>u v. ob u v \<noteq> None"
  shows "\<exists>r. both_empty ob b xa ya xb yb = Inr r"
proof -
  obtain a where a: "board_get ob b xa ya = Inr a" using board_get_total [OF assms] by blast
  obtain c where c: "board_get ob b xb yb = Inr c" using board_get_total [OF assms] by blast
  show ?thesis using a c by (auto simp add: both_empty_def)
qed

lemma line_loop_total:
  "(\<And>k. \<exists>v. rd k = Inr v) \<Longrightarrow> \<exists>r. line_loop rd s needed n i c = Inr r"
proof (induction rd s needed n i c rule: line_loop.induct)
  case (1 rd s needed n i c)
  show ?case
  proof (cases "i < n")
    case False
    then show ?thesis by (subst line_loop.simps) simp
  next
    case True
    from "1.prems" obtain v where v: "rd i = Inr v" by blast
    show ?thesis
      using True v "1.IH"(1) [OF True v _ _ "1.prems"] "1.IH"(2) [OF True v _ "1.prems"]
      by (subst line_loop.simps) auto
  qed
qed

lemma axis_loop_total:
  assumes ob: "\<forall>u v. ob u v \<noteq> None"
  shows "\<exists>r. axis_loop ob g a needed x y c = Inr r"
proof -
  have cell: "\<exists>v. line_cell ob (board g) st d k = Inr v" for st d k
    unfolding line_cell_def by (rule board_get_total [OF ob])
  have l: "\<exists>r. line_loop (line_cell ob (board g) st d) (stone g) needed N 0 c = Inr r" for st d N
    by (rule line_loop_total) (rule cell)
  show ?thesis
  proof (cases a)
    case Vertical
    then show ?thesis using l by (simp add: axis_loop_def vertical_loop_cells)
  next
    case Horizontal
    then show ?thesis using l by (simp add: axis_loop_def horizontal_loop_cells)
  next
    case DiagonalDown
    obtain x0 y0 where s: "diagonal_down_start x y = (x0, y0)" by (cases "diagonal_down_start x y")
    have "diagonal_down_loop ob g needed x0 y0 c =
      line_loop (line_cell ob (board g) (uint x0, uint y0) (1, 1)) (stone g) needed
        (min (unat (size_b (board g)) - unat x0) (unat (size_b (board g)) - unat y0)) 0 c"
      using diagonal_down_loop_cells [of _ g x0 y0 0 ob needed c] by simp
    then show ?thesis using DiagonalDown s l by (simp add: axis_loop_def)
  next
    case DiagonalUp
    obtain x0 y0 where s: "diagonal_up_start (size_b (board g)) x y = (x0, y0)"
      by (cases "diagonal_up_start (size_b (board g)) x y")
    have "diagonal_up_loop ob g needed x0 y0 c =
      line_loop (line_cell ob (board g) (uint x0, uint y0) (1, - 1)) (stone g) needed
        (unat (size_b (board g)) - unat x0) 0 c"
      using diagonal_up_loop_cells [of _ g x0 0 ob needed y0 c] by simp
    then show ?thesis using DiagonalUp s l by (simp add: axis_loop_def)
  qed
qed

lemma line_win_total:
  assumes ob: "\<forall>u v. ob u v \<noteq> None"
  shows "\<exists>w. line_win ob g x y = Inr w"
proof -
  have "\<exists>r. axis_loop ob g a 5 x y 0 = Inr r" for a by (rule axis_loop_total [OF ob])
  then obtain r1 r2 r3 r4 where
    "axis_loop ob g Vertical 5 x y 0 = Inr r1" "axis_loop ob g Horizontal 5 x y 0 = Inr r2"
    "axis_loop ob g DiagonalDown 5 x y 0 = Inr r3" "axis_loop ob g DiagonalUp 5 x y 0 = Inr r4"
    by metis
  then show ?thesis
    by (cases r1; cases r2; cases r3; cases r4) (auto simp add: line_win_axis orelse_def found_def)
qed

lemma overline_total:
  assumes ob: "\<forall>u v. ob u v \<noteq> None"
  shows "\<exists>w. overline ob g x y = Inr w"
proof -
  have t: "\<exists>r. axis_loop ob g a 6 x y c = Inr r" for a c by (rule axis_loop_total [OF ob])
  obtain r1 where r1: "axis_loop ob g Vertical 6 x y 0 = Inr r1" using t by blast
  obtain r2 where r2: "axis_loop ob g Horizontal 6 x y 0 = Inr r2" using t by blast
  show ?thesis
  proof (cases r1)
    case Found
    then show ?thesis using r1 by (auto simp add: overline_axis)
  next
    case (Ended c1)
    show ?thesis
    proof (cases r2)
      case Found
      then show ?thesis using r1 r2 Ended by (auto simp add: overline_axis)
    next
      case e2: (Ended c2)
      obtain r3 where r3: "axis_loop ob g DiagonalDown 6 x y c2 = Inr r3" using t by blast
      show ?thesis
      proof (cases r3)
        case Found
        then show ?thesis using r1 r2 r3 Ended e2 by (auto simp add: overline_axis)
      next
        case e3: (Ended c3)
        obtain r4 where r4: "axis_loop ob g DiagonalUp 6 x y c3 = Inr r4" using t by blast
        then show ?thesis using r1 r2 r3 Ended e2 e3
          by (cases r4) (auto simp add: overline_axis found_def)
      qed
    qed
  qed
qed

declare fours_vertical_loop.simps [simp del] fours_horizontal_loop.simps [simp del]
  fours_diagonal_down_loop.simps [simp del] fours_diagonal_up_loop.simps [simp del]

lemma fours_vertical_loop_total:
  "\<forall>u v. ob u v \<noteq> None \<Longrightarrow> \<exists>n. fours_vertical_loop ob g x i connections openFours = Inr n"
proof (induction ob g x i connections openFours rule: fours_vertical_loop.induct)
  case (1 ob g x i connections openFours)
  note ob = "1.prems"
  show ?case
  proof (cases "i < unat (size_b (board g))")
    case False
    then show ?thesis by (subst fours_vertical_loop.simps) auto
  next
    case True
    obtain v where v: "board_get ob (board g) x (of_nat i) = Inr v"
      using board_get_total [OF ob] by blast
    show ?thesis
    proof (cases "v = stone g")
      case False
      from "1.IH"(3) [OF True v False ob] True v False show ?thesis
        by (subst fours_vertical_loop.simps) simp
    next
      case s: True
      show ?thesis
      proof (cases "connections + 1 = NEEDED_CONNECTIONS - 1")
        case False
        from "1.IH"(2) [OF True v s False ob] True v s False show ?thesis
          by (subst fours_vertical_loop.simps) simp
      next
        case four: True
        obtain opn where o: "both_empty ob (board g) (x + 1) (of_nat i) (x - of_nat (connections + 1)) (of_nat i) = Inr opn"
          using both_empty_total [OF ob] by blast
        from "1.IH"(1) [OF True v s four o ob] True v s four o show ?thesis
          by (subst fours_vertical_loop.simps) simp
      qed
    qed
  qed
qed

lemma fours_horizontal_loop_total:
  "\<forall>u v. ob u v \<noteq> None \<Longrightarrow> \<exists>n. fours_horizontal_loop ob g y j connections openFours = Inr n"
proof (induction ob g y j connections openFours rule: fours_horizontal_loop.induct)
  case (1 ob g y j connections openFours)
  note ob = "1.prems"
  show ?case
  proof (cases "j < unat (size_b (board g))")
    case False
    then show ?thesis by (subst fours_horizontal_loop.simps) auto
  next
    case True
    obtain v where v: "board_get ob (board g) (of_nat j) y = Inr v"
      using board_get_total [OF ob] by blast
    show ?thesis
    proof (cases "v = stone g")
      case False
      from "1.IH"(3) [OF True v False ob] True v False show ?thesis
        by (subst fours_horizontal_loop.simps) simp
    next
      case s: True
      show ?thesis
      proof (cases "connections + 1 = NEEDED_CONNECTIONS - 1")
        case False
        from "1.IH"(2) [OF True v s False ob] True v s False show ?thesis
          by (subst fours_horizontal_loop.simps) simp
      next
        case four: True
        obtain opn where o: "both_empty ob (board g) (of_nat j) (y + 1) (of_nat j) (y - of_nat (connections + 1)) = Inr opn"
          using both_empty_total [OF ob] by blast
        from "1.IH"(1) [OF True v s four o ob] True v s four o show ?thesis
          by (subst fours_horizontal_loop.simps) simp
      qed
    qed
  qed
qed

lemma fours_diagonal_down_loop_total:
  "\<forall>u v. ob u v \<noteq> None \<Longrightarrow> \<exists>n. fours_diagonal_down_loop ob g boardX boardY connections openFours = Inr n"
proof (induction ob g boardX boardY connections openFours rule: fours_diagonal_down_loop.induct)
  case (1 ob g boardX boardY connections openFours)
  note ob = "1.prems"
  show ?case
  proof (cases "boardY < size_b (board g) \<and> boardX < size_b (board g)")
    case False
    then show ?thesis by (subst fours_diagonal_down_loop.simps) auto
  next
    case True
    obtain v where v: "board_get ob (board g) boardX boardY = Inr v"
      using board_get_total [OF ob] by blast
    show ?thesis
    proof (cases "v = stone g")
      case False
      from "1.IH"(3) [OF True v False ob] True v False show ?thesis
        by (subst fours_diagonal_down_loop.simps) simp
    next
      case s: True
      show ?thesis
      proof (cases "connections + 1 = NEEDED_CONNECTIONS - 1")
        case False
        from "1.IH"(2) [OF True v s False ob] True v s False show ?thesis
          by (subst fours_diagonal_down_loop.simps) simp
      next
        case four: True
        obtain opn where o: "both_empty ob (board g) (boardX + 1) (boardY + 1) (boardX - of_nat (connections + 1)) (boardY - of_nat (connections + 1)) = Inr opn"
          using both_empty_total [OF ob] by blast
        from "1.IH"(1) [OF True v s four o ob] True v s four o show ?thesis
          by (subst fours_diagonal_down_loop.simps) simp
      qed
    qed
  qed
qed

lemma fours_diagonal_up_loop_total:
  "\<forall>u v. ob u v \<noteq> None \<Longrightarrow> \<exists>n. fours_diagonal_up_loop ob g boardX boardY connections openFours = Inr n"
proof (induction ob g boardX boardY connections openFours rule: fours_diagonal_up_loop.induct)
  case (1 ob g boardX boardY connections openFours)
  note ob = "1.prems"
  show ?case
  proof (cases "boardY \<ge> 0 \<and> boardX < size_b (board g)")
    case False
    then show ?thesis by (subst fours_diagonal_up_loop.simps) auto
  next
    case True
    obtain v where v: "board_get ob (board g) boardX boardY = Inr v"
      using board_get_total [OF ob] by blast
    show ?thesis
    proof (cases "v = stone g")
      case False
      from "1.IH"(3) [OF True v False ob] True v False show ?thesis
        by (subst fours_diagonal_up_loop.simps) simp
    next
      case s: True
      show ?thesis
      proof (cases "connections + 1 = NEEDED_CONNECTIONS - 1")
        case False
        from "1.IH"(2) [OF True v s False ob] True v s False show ?thesis
          by (subst fours_diagonal_up_loop.simps) simp
      next
        case four: True
        obtain opn where o: "both_empty ob (board g) (boardX + 1) (boardY - 1) (boardX - of_nat (connections + 1)) (boardY + of_nat (connections + 1)) = Inr opn"
          using both_empty_total [OF ob] by blast
        from "1.IH"(1) [OF True v s four o ob] True v s four o show ?thesis
          by (subst fours_diagonal_up_loop.simps) simp
      qed
    qed
  qed
qed

lemma open_fours_total:
  assumes ob: "\<forall>u v. ob u v \<noteq> None"
  shows "\<exists>n. open_fours ob g x y = Inr n"
proof -
  obtain n1 where 1: "fours_vertical_loop ob g x 0 0 0 = Inr n1"
    using fours_vertical_loop_total [OF ob] by blast
  obtain n2 where 2: "fours_horizontal_loop ob g y 0 0 n1 = Inr n2"
    using fours_horizontal_loop_total [OF ob] by blast
  obtain xd yd where d: "diagonal_down_start x y = (xd, yd)" by (cases "diagonal_down_start x y")
  obtain n3 where 3: "fours_diagonal_down_loop ob g xd yd 0 n2 = Inr n3"
    using fours_diagonal_down_loop_total [OF ob] by blast
  obtain xu yu where u: "diagonal_up_start (size_b (board g)) x y = (xu, yu)"
    by (cases "diagonal_up_start (size_b (board g)) x y")
  obtain n4 where 4: "fours_diagonal_up_loop ob g xu yu 0 n3 = Inr n4"
    using fours_diagonal_up_loop_total [OF ob] by blast
  show ?thesis using 1 2 d 3 u 4 by (simp add: open_fours_def)
qed

lemma apply_rules_total:
  assumes ob: "\<forall>u v. ob u v \<noteq> None"
  shows "\<exists>g'. apply_rules ob g x y = Inr g'"
proof -
  obtain w where w: "line_win ob g x y = Inr w" using line_win_total [OF ob] by blast
  obtain n where n: "open_fours ob g x y = Inr n" using open_fours_total [OF ob] by blast
  have d: "\<exists>g4. doubleOpenFours ob g x y = Inr g4"
    using w n by (cases w) (simp_all add: doubleOpenFours_won doubleOpenFours_lost)
  show ?thesis
  proof (cases "type g = GAME_RENJU \<and> stone g = BLACK_STONE")
    case False
    then show ?thesis using w by (auto simp: apply_rules_def)
  next
    case True
    from d obtain g4 where g4: "doubleOpenFours ob g x y = Inr g4" ..
    obtain over where o: "overline ob g4 x y = Inr over" using overline_total [OF ob] by blast
    from True g4 o show ?thesis by (auto simp: apply_rules_renju_black)
  qed
qed

text \<open>
  With surroundings that can be read everywhere, a placement on a cell of the grid
  returns.
\<close>

lemma game_place_stone_returns:
  assumes ob: "\<forall>u v. ob u v \<noteq> None"
    and x: "x < size_b (board g)" and y: "y < size_b (board g)"
    and st: "stone g = BLACK_STONE \<or> stone g = WHITE_STONE"
  shows "\<exists>r g'. game_place_stone ob g x y = Inr (r, g')"
proof -
  have b: "board_get ob (board g) x y = Inr (grid (board g) ! cell_index (board g) x y)"
    using x y by (rule board_get_inside)
  obtain g3 where p: "put_stone g x y = Inr g3"
    using cell_index_inside [OF x y] st
    by (cases "moves_count g \<ge> moves_capacity g") (auto simp: put_stone_def Let_def board_set_def)
  obtain g' where a: "apply_rules ob g3 x y = Inr g'" using apply_rules_total [OF ob] by blast
  show ?thesis using b p a by (auto simp: game_place_stone_def)
qed


section \<open>Boards without five in a row\<close>

text \<open>
  Setting a stone changes one cell of the grid. A run of five on the new board either
  passes through the new stone or stood on the board before; and a placement at
  coordinates of the grid that leaves the game in the state \<^verbatim>\<open>GAME_STATE_PLAYING\<close> has
  made no five, because the win checks find every five through the placed stone. So no
  game of the game loop that is still being played holds five in a row.
\<close>

lemma flat_index_inj:
  assumes "a < n" and "a' < n" and "c * n + a = c' * n + (a'::nat)"
  shows "c = c' \<and> a = a'"
proof -
  have "(c * n + a) mod n = a" "(c' * n + a') mod n = a'" using assms(1,2) by simp_all
  with assms(3) have a: "a = a'" by simp
  with assms(3) have "c * n = c' * n" by simp
  moreover have "0 < n" using assms(1) by simp
  ultimately have "c = c'" by simp
  with a show ?thesis by simp
qed

lemma cell_at_update:
  assumes len: "length (grid b) = unat (size_b b) * unat (size_b b)"
    and x: "x < size_b b" and y: "y < size_b b"
  shows "cell_at (b\<lparr>grid := (grid b)[cell_index b x y := v]\<rparr>) i j =
     (if i = uint x \<and> j = uint y then Some v else cell_at b i j)"
proof -
  define n where "n = unat (size_b b)"
  define X where "X = unat x"
  define Y where "Y = unat y"
  have U: "uint (size_b b) = int n" unfolding n_def by (simp add: uint_nat del: of_nat_unat)
  have ux: "uint x = int X" unfolding X_def by (simp add: uint_nat del: of_nat_unat)
  have uy: "uint y = int Y" unfolding Y_def by (simp add: uint_nat del: of_nat_unat)
  have Xn: "X < n" and Yn: "Y < n" using x y unfolding X_def Y_def n_def
    by (simp_all add: word_less_nat_alt)
  have idx: "cell_index b x y = Y * n + X" unfolding cell_index_def X_def Y_def n_def ..
  have idx_len: "Y * n + X < length (grid b)"
    unfolding len n_def [symmetric] using Xn Yn by (rule flat_index_less)
  have ca: "cell_at (b\<lparr>grid := g\<rparr>) i j =
      (if 0 \<le> i \<and> i < int n \<and> 0 \<le> j \<and> j < int n
       then Some (g ! (nat j * n + nat i)) else None)" for g
    unfolding cell_at_def n_def by (simp add: uint_nat del: of_nat_unat)
  have cb: "cell_at b i j =
      (if 0 \<le> i \<and> i < int n \<and> 0 \<le> j \<and> j < int n
       then Some (grid b ! (nat j * n + nat i)) else None)"
    unfolding cell_at_def n_def by (simp add: uint_nat del: of_nat_unat)
  show ?thesis
  proof (cases "0 \<le> i \<and> i < int n \<and> 0 \<le> j \<and> j < int n")
    case False
    have ne: "\<not> (i = int X \<and> j = int Y)" using False Xn Yn by auto
    show ?thesis unfolding ca cb ux uy by (simp only: False ne if_False)
  next
    case True
    then have In: "nat i < n" and Jn: "nat j < n" by linarith+
    have k_len: "nat j * n + nat i < length (grid b)"
      unfolding len n_def [symmetric] using In Jn by (rule flat_index_less)
    have same: "Y * n + X = nat j * n + nat i \<longleftrightarrow> i = int X \<and> j = int Y"
    proof
      assume "Y * n + X = nat j * n + nat i"
      from flat_index_inj [OF Xn In this] have "Y = nat j" "X = nat i" by simp_all
      then show "i = int X \<and> j = int Y" using True by simp
    next
      assume "i = int X \<and> j = int Y"
      then show "Y * n + X = nat j * n + nat i" by simp
    qed
    have "(grid b)[Y * n + X := v] ! (nat j * n + nat i)
           = (if Y * n + X = nat j * n + nat i then v else grid b ! (nat j * n + nat i))"
      using idx_len k_len by (simp add: nth_list_update)
    then show ?thesis unfolding ca cb ux uy idx same [symmetric] by (simp only: True if_True) simp
  qed
qed

lemma run_through_of_run_from:
  assumes "k < len" and "i + int k * fst (step_of a) = uint x"
    and "j + int k * snd (step_of a) = uint y" and "run_from b s len a i j"
  shows "run_through b s len a x y"
proof -
  have "uint x - int k * fst (step_of a) = i" "uint y - int k * snd (step_of a) = j"
    using assms(2,3) by simp_all
  with assms(4)
  have "run_from b s len a (uint x - int k * fst (step_of a)) (uint y - int k * snd (step_of a))"
    by simp
  moreover have "k \<in> set [0..<len]" using assms(1) by simp
  ultimately show ?thesis unfolding run_through_def list_ex_iff by blast
qed

lemma run_from_five_on_board:
  assumes "run_from b s NEEDED_CONNECTIONS a i j"
  shows "five_on_board b s"
proof -
  define n where "n = unat (size_b b)"
  from assms have "\<forall>k<NEEDED_CONNECTIONS.
      cell_at b (i + int k * fst (step_of a)) (j + int k * snd (step_of a)) = Some s"
    unfolding run_from_cells .
  from this [rule_format, of 0] have c: "cell_at b i j = Some s" by simp
  have "0 \<le> i \<and> i < int n \<and> 0 \<le> j \<and> j < int n"
  proof (rule ccontr)
    assume "\<not> (0 \<le> i \<and> i < int n \<and> 0 \<le> j \<and> j < int n)"
    then have "cell_at b i j = None"
      unfolding cell_at_def n_def by (auto simp add: uint_nat simp del: of_nat_unat)
    with c show False by simp
  qed
  then have I: "nat i \<in> set [0..<n]" and J: "nat j \<in> set [0..<n]"
    and e: "int (nat i) = i" "int (nat j) = j" by auto
  have a: "a \<in> set axes" by (cases a) (simp_all add: axes_def)
  have "run_from b s NEEDED_CONNECTIONS a (int (nat i)) (int (nat j))"
    using assms unfolding e .
  with a I J show ?thesis unfolding five_on_board_def list_ex_iff n_def by blast
qed

lemma five_on_board_run:
  assumes "five_on_board b s"
  shows "\<exists>a i j. run_from b s NEEDED_CONNECTIONS a i j"
  using assms unfolding five_on_board_def list_ex_iff by blast

lemma run_on_line_run:
  assumes "run_on_line b s len a x y"
  shows "\<exists>q. run_from b s len a (uint x + q * fst (step_of a)) (uint y + q * snd (step_of a))"
  using assms unfolding run_on_line_def list_ex_iff by blast

lemma run_from_update:
  assumes len: "length (grid b) = unat (size_b b) * unat (size_b b)"
    and x: "x < size_b b" and y: "y < size_b b"
    and avoid: "\<And>k. k < m \<Longrightarrow>
       \<not> (i + int k * fst (step_of a) = uint x \<and> j + int k * snd (step_of a) = uint y)"
  shows "run_from (b\<lparr>grid := (grid b)[cell_index b x y := v]\<rparr>) s m a i j = run_from b s m a i j"
  unfolding run_from_cells cell_at_update [OF len x y] using avoid by auto

lemma apply_rules_playing_lost:
  assumes "apply_rules ob g x y = Inr g'" and "state g' = GAME_STATE_PLAYING"
  shows "line_win ob g x y = Inr False"
proof (cases "type g = GAME_RENJU \<and> stone g = BLACK_STONE")
  case True
  then have ty: "type g = GAME_RENJU" and st: "stone g = BLACK_STONE" by simp_all
  note q = assms(1) [unfolded apply_rules_renju_black [OF ty st]]
  from q obtain g4 where d: "doubleOpenFours ob g x y = Inr g4"
    by (cases "doubleOpenFours ob g x y") simp_all
  then obtain won where w: "line_win ob g x y = Inr won"
    by (cases "line_win ob g x y") (simp_all add: doubleOpenFours_def)
  show ?thesis
  proof (cases won)
    case True
    with w d have "g4 = g\<lparr>winner := stone g, state := GAME_STATE_FINISHED\<rparr>"
      by (simp add: doubleOpenFours_won)
    with q d assms(2) show ?thesis by (auto split: sum.splits if_splits)
  next
    case False
    with w show ?thesis by simp
  qed
next
  case False
  with assms show ?thesis
    by (auto simp: apply_rules_def split: sum.splits if_splits)
qed

lemma no_five_step:
  assumes ok: "board_ok (board g)"
    and x: "x < size_b (board g)" and y: "y < size_b (board g)"
    and place: "game_place_stone ob g x y = Inr (r, g')"
    and st: "state g' = GAME_STATE_PLAYING"
    and nf: "\<not> five_on_board (board g) s"
  shows "\<not> five_on_board (board g') s"
proof
  assume f: "five_on_board (board g') s"
  from game_place_stone_steps [OF place] show False
  proof
    assume "\<not> r \<and> g' = g"
    with f nf show False by simp
  next
    assume "r \<and> grid (board g) ! cell_index (board g) x y = EMPTY_INTERSECTION
          \<and> (\<exists>g3. put_stone g x y = Inr g3 \<and> apply_rules ob g3 x y = Inr g')"
    then obtain g3 where p: "put_stone g x y = Inr g3" and q: "apply_rules ob g3 x y = Inr g'"
      by blast
    note g3 = put_stone_cases [OF p]
    note ok3 = put_stone_board_ok [OF p ok]
    have b: "board g' = board g3" using apply_rules_keeps [OF q] by simp
    have b3: "board g3 = (board g)\<lparr>grid := (grid (board g))[cell_index (board g) x y := stone g]\<rparr>"
      using g3 by simp
    have len: "length (grid (board g)) = unat (size_b (board g)) * unat (size_b (board g))"
      using ok by (simp add: board_ok_def)
    have x3: "x < size_b (board g3)" and y3: "y < size_b (board g3)" using x y ok3(2) by simp_all
    from five_on_board_run [OF f] obtain a i j where
      run: "run_from (board g3) s NEEDED_CONNECTIONS a i j" unfolding b by blast
    show False
    proof (cases "\<exists>k<NEEDED_CONNECTIONS. i + int k * fst (step_of a) = uint x
                     \<and> j + int k * snd (step_of a) = uint y")
      case True
      then obtain k where k: "k < NEEDED_CONNECTIONS" "i + int k * fst (step_of a) = uint x"
        "j + int k * snd (step_of a) = uint y" by blast
      from run k(1) have "cell_at (board g3) (i + int k * fst (step_of a))
          (j + int k * snd (step_of a)) = Some s"
        unfolding run_from_cells by blast
      then have "cell_at (board g3) (uint x) (uint y) = Some s" unfolding k(2,3) .
      moreover have "cell_at (board g3) (uint x) (uint y) = Some (stone g)"
        unfolding b3 cell_at_update [OF len x y] by simp
      ultimately have s: "s = stone g3" using g3 by simp
      from run_through_of_run_from [OF k run]
      have "run_through (board g3) (stone g3) NEEDED_CONNECTIONS a x y" unfolding s .
      from line_win_finds [OF ok3(1) x3 y3 this, of ob] apply_rules_playing_lost [OF q st]
      show False by simp
    next
      case False
      then have "run_from (board g3) s NEEDED_CONNECTIONS a i j
          = run_from (board g) s NEEDED_CONNECTIONS a i j"
        unfolding b3 by (intro run_from_update [OF len x y]) blast
      with run have "run_from (board g) s NEEDED_CONNECTIONS a i j" by simp
      from run_from_five_on_board [OF this] nf show False by simp
    qed
  qed
qed

lemma new_board_no_five:
  assumes "game_create sz ty = Inr g" and "s \<noteq> EMPTY_INTERSECTION"
  shows "\<not> five_on_board (board g) s"
proof
  assume "five_on_board (board g) s"
  from five_on_board_run [OF this] obtain a i j where
    run: "run_from (board g) s NEEDED_CONNECTIONS a i j" by blast
  define n where "n = unat (size_b (board g))"
  from assms(1) have grid: "grid (board g) = replicate (n * n) EMPTY_INTERSECTION"
    unfolding n_def by (auto simp: game_create_def board_create_def split: sum.splits if_splits)
  from run have "\<forall>k<NEEDED_CONNECTIONS.
      cell_at (board g) (i + int k * fst (step_of a)) (j + int k * snd (step_of a)) = Some s"
    unfolding run_from_cells .
  from this [rule_format, of 0] have c: "cell_at (board g) i j = Some s" by simp
  have cb: "cell_at (board g) i j =
      (if 0 \<le> i \<and> i < int n \<and> 0 \<le> j \<and> j < int n
       then Some (grid (board g) ! (nat j * n + nat i)) else None)"
    unfolding cell_at_def n_def by (simp add: uint_nat del: of_nat_unat)
  from c have inside: "0 \<le> i \<and> i < int n \<and> 0 \<le> j \<and> j < int n"
    unfolding cb by (simp split: if_splits)
  then have "nat i < n" "nat j < n" by linarith+
  then have "nat j * n + nat i < n * n" by (rule flat_index_less)
  then have "grid (board g) ! (nat j * n + nat i) = EMPTY_INTERSECTION"
    unfolding grid by simp
  with c inside assms(2) show False unfolding cb by simp
qed

lemma played_on_grid_invariant:
  assumes "played_on_grid g"
  shows "board_ok (board g)
         \<and> (state g = GAME_STATE_PLAYING \<longrightarrow>
              (\<forall>s. s \<noteq> EMPTY_INTERSECTION \<longrightarrow> \<not> five_on_board (board g) s))"
  using assms
proof (induction rule: played_on_grid.induct)
  case (created sz ty g)
  then show ?case by (simp add: game_create_facts new_board_no_five)
next
  case (placed g x y ob r g')
  from placed.IH placed.hyps(2) have ok: "board_ok (board g)"
    and nf: "\<And>s. s \<noteq> EMPTY_INTERSECTION \<Longrightarrow> \<not> five_on_board (board g) s"
    by simp_all
  have ok': "board_ok (board g')"
    using game_place_stone_cases [OF placed.hyps(5)] ok by (auto simp: board_ok_def)
  have "\<not> five_on_board (board g') s"
    if "state g' = GAME_STATE_PLAYING" and "s \<noteq> EMPTY_INTERSECTION" for s
    using no_five_step [OF ok placed.hyps(3) placed.hyps(4) placed.hyps(5) that(1) nf [OF that(2)]] .
  with ok' show ?case by simp
qed

lemma played_on_grid_played:
  "played_on_grid g \<Longrightarrow> played g"
proof (induction rule: played_on_grid.induct)
  case (created sz ty g)
  then show ?case by (rule played.created)
next
  case (placed g x y ob r g')
  from placed.IH placed.hyps(2) placed.hyps(5) show ?case by (rule played.placed)
qed

lemma step_of_nonzero: "q \<noteq> 0 \<Longrightarrow> \<not> (q * fst (step_of a) = 0 \<and> q * snd (step_of a) = 0)"
  by (cases a) simp_all

lemma run_on_line_cases:
  assumes len: "length (grid b) = unat (size_b b) * unat (size_b b)"
    and x: "x < size_b b" and y: "y < size_b b"
    and run: "run_on_line (b\<lparr>grid := (grid b)[cell_index b x y := s]\<rparr>) s NEEDED_CONNECTIONS a x y"
  shows "run_through (b\<lparr>grid := (grid b)[cell_index b x y := s]\<rparr>) s NEEDED_CONNECTIONS a x y
         \<or> five_on_board b s"
proof -
  let ?b' = "b\<lparr>grid := (grid b)[cell_index b x y := s]\<rparr>"
  let ?dx = "fst (step_of a)" and ?dy = "snd (step_of a)"
  from run_on_line_run [OF run] obtain q where
    r: "run_from ?b' s NEEDED_CONNECTIONS a (uint x + q * ?dx) (uint y + q * ?dy)" by blast
  show ?thesis
  proof (cases "- 4 \<le> q \<and> q \<le> 0")
    case True
    then have k: "nat (- q) < NEEDED_CONNECTIONS" by linarith
    have e: "int (nat (- q)) = - q" using True by linarith
    have "uint x + q * ?dx + int (nat (- q)) * ?dx = uint x"
         "uint y + q * ?dy + int (nat (- q)) * ?dy = uint y"
      unfolding e by simp_all
    from run_through_of_run_from [OF k this r] show ?thesis by simp
  next
    case False
    have "\<not> (uint x + q * ?dx + int k * ?dx = uint x \<and> uint y + q * ?dy + int k * ?dy = uint y)"
      if "k < NEEDED_CONNECTIONS" for k
    proof -
      have "q + int k \<noteq> 0" using False that by auto
      from step_of_nonzero [OF this, of a] show ?thesis by (simp add: algebra_simps)
    qed
    then have "run_from ?b' s NEEDED_CONNECTIONS a (uint x + q * ?dx) (uint y + q * ?dy)
        = run_from b s NEEDED_CONNECTIONS a (uint x + q * ?dx) (uint y + q * ?dy)"
      by (intro run_from_update [OF len x y]) blast
    with r have "run_from b s NEEDED_CONNECTIONS a (uint x + q * ?dx) (uint y + q * ?dy)" by simp
    from run_from_five_on_board [OF this] show ?thesis by simp
  qed
qed

text \<open>
  When none of the four lines through the placed stone holds five of its colour, and no
  byte of that colour is read behind the grid, no win is declared.
\<close>

lemma no_five_no_win:
  assumes ok: "board_ok (board g)"
    and x: "x < size_b (board g)" and y: "y < size_b (board g)"
    and empty: "grid (board g) ! cell_index (board g) x y = EMPTY_INTERSECTION"
    and place: "game_place_stone ob g x y = Inr (r, g')"
    and clean: "\<forall>u v. ob u v \<noteq> Some (stone g)"
    and norun: "\<not> list_ex (\<lambda>a. run_on_line (board g') (stone g) 5 a x y) axes"
  shows "if type g = GAME_RENJU \<and> stone g = BLACK_STONE
         then state g' = state g \<and> winner g' = winner g
              \<or> state g' = GAME_STATE_FORBIDDEN \<and> winner g' = WHITE_STONE
         else winner g' = winner g
              \<and> (state g' = state g
                  \<or> state g' = GAME_STATE_FINISHED \<and> board_is_full (board g'))"
proof -
  have "board_get ob (board g) x y = Inr EMPTY_INTERSECTION"
    using x y empty by (simp add: board_get_inside)
  with place obtain g3 where p: "put_stone g x y = Inr g3"
    and q: "apply_rules ob g3 x y = Inr g'"
    by (auto simp: game_place_stone_def split: sum.splits)
  note g3 = put_stone_cases [OF p]
  note ok3 = put_stone_board_ok [OF p ok]
  have b: "board g' = board g3" using apply_rules_keeps [OF q] by simp
  have x3: "x < size_b (board g3)" and y3: "y < size_b (board g3)" using x y ok3(2) by simp_all
  from q obtain won where w: "line_win ob g3 x y = Inr won"
    by (auto simp: apply_rules_def doubleOpenFours_def split: sum.splits if_splits)
  have "\<not> won"
  proof
    assume "won"
    then have "line_win ob g3 x y = Inr True" using w by simp
    from line_win_found [OF ok3(1) x3 y3 this] clean g3
    have "list_ex (\<lambda>a. run_on_line (board g3) (stone g3) 5 a x y) axes" by simp
    then show False using norun b g3 by simp
  qed
  then show ?thesis using q w g3
    by (auto simp: apply_rules_def doubleOpenFours_def split: sum.splits if_splits)
qed

section \<open>Five in a row\<close>

text \<open>
  C3, as the code has it. Take a placement on an empty cell of a well-formed board that
  returns.
  First part: in a freestyle game, and for White in Renju, when the stone lies in a run of
  five stones of its colour along one of the four axes, the game is finished and that
  colour has won. This holds whatever the scans read behind the grid.
  Second part: when none of the four lines through the stone holds five stones of its
  colour in a row, anywhere on the line, no win is declared: the winner stays as it was,
  and the state changes only for a full board (or, for Black in Renju, for a forbidden
  move). Here the bytes that the scans read behind the grid must not hold the colour of
  the stone; with \<open>no_outside\<close> there are none.
\<close>

theorem five_in_a_row_wins:
  assumes ok: "board_ok (board g)"
    and x: "x < size_b (board g)" and y: "y < size_b (board g)"
    and empty: "grid (board g) ! cell_index (board g) x y = EMPTY_INTERSECTION"
    and place: "game_place_stone ob g x y = Inr (r, g')"
  shows "(type g = GAME_FREESTYLE \<or> type g = GAME_RENJU \<and> stone g = WHITE_STONE \<longrightarrow>
          list_ex (\<lambda>a. run_through (board g') (stone g) 5 a x y) axes \<longrightarrow>
          state g' = GAME_STATE_FINISHED \<and> winner g' = stone g)
       \<and> ((\<forall>u v. ob u v \<noteq> Some (stone g)) \<longrightarrow>
          \<not> list_ex (\<lambda>a. run_on_line (board g') (stone g) 5 a x y) axes \<longrightarrow>
          (if type g = GAME_RENJU \<and> stone g = BLACK_STONE
           then state g' = state g \<and> winner g' = winner g
                \<or> state g' = GAME_STATE_FORBIDDEN \<and> winner g' = WHITE_STONE
           else winner g' = winner g
                \<and> (state g' = state g
                    \<or> state g' = GAME_STATE_FINISHED \<and> board_is_full (board g'))))"
proof -
  have "board_get ob (board g) x y = Inr EMPTY_INTERSECTION"
    using x y empty by (simp add: board_get_inside)
  with place obtain g3 where p: "put_stone g x y = Inr g3"
    and q: "apply_rules ob g3 x y = Inr g'"
    by (auto simp: game_place_stone_def split: sum.splits)
  note g3 = put_stone_cases [OF p]
  note ok3 = put_stone_board_ok [OF p ok]
  have b: "board g' = board g3" using apply_rules_keeps [OF q] by simp
  have x3: "x < size_b (board g3)" and y3: "y < size_b (board g3)" using x y ok3(2) by simp_all
  from q obtain won where w: "line_win ob g3 x y = Inr won"
    by (auto simp: apply_rules_def doubleOpenFours_def split: sum.splits if_splits)
  have 1: "state g' = GAME_STATE_FINISHED \<and> winner g' = stone g"
    if scope: "type g = GAME_FREESTYLE \<or> type g = GAME_RENJU \<and> stone g = WHITE_STONE"
      and run: "list_ex (\<lambda>a. run_through (board g') (stone g) 5 a x y) axes"
  proof -
    from run obtain a where "run_through (board g3) (stone g3) 5 a x y"
      using b g3 by (auto simp: list_ex_iff)
    from line_win_finds [OF ok3(1) x3 y3 this, of ob] w have "won" by simp
    then show ?thesis using q w scope g3
      by (auto simp: apply_rules_def split: sum.splits if_splits)
  qed
  from 1 no_five_no_win [OF ok x y empty place] show ?thesis by blast
qed

theorem five_in_a_row_wins_witness:
  "game_place_stone no_outside four_game 4 10 = Inr (True, five_game)
   \<and> list_ex (\<lambda>a. run_through (board five_game) BLACK_STONE 5 a 4 10) axes
   \<and> state five_game = GAME_STATE_FINISHED \<and> winner five_game = stone four_game
   \<and> game_place_stone no_outside three_game 3 11 = Inr (True, four_black_game)
   \<and> run_through (board four_black_game) BLACK_STONE 4 DiagonalUp 3 11
   \<and> \<not> list_ex (\<lambda>a. run_on_line (board four_black_game) BLACK_STONE 5 a 3 11) axes
   \<and> winner four_black_game = winner three_game
   \<and> state four_black_game = state three_game"
proof -
  have ok1: "board_ok (board four_game)" by code_simp
  have x1: "4 < size_b (board four_game)" and y1: "10 < size_b (board four_game)"
    by code_simp+
  have e1: "grid (board four_game) ! cell_index (board four_game) 4 10 = EMPTY_INTERSECTION"
    by code_simp
  have p1: "game_place_stone no_outside four_game 4 10 = Inr (True, five_game)"
    by code_simp
  have s1: "type four_game = GAME_FREESTYLE" and c1: "stone four_game = BLACK_STONE"
    by code_simp+
  have r1: "list_ex (\<lambda>a. run_through (board five_game) BLACK_STONE 5 a 4 10) axes"
    by code_simp
  have ok2: "board_ok (board three_game)" by code_simp
  have x2: "3 < size_b (board three_game)" and y2: "11 < size_b (board three_game)"
    by code_simp+
  have e2: "grid (board three_game) ! cell_index (board three_game) 3 11 = EMPTY_INTERSECTION"
    by code_simp
  have p2: "game_place_stone no_outside three_game 3 11 = Inr (True, four_black_game)"
    by code_simp
  have s2: "type three_game = GAME_FREESTYLE" and c2: "stone three_game = BLACK_STONE"
    by code_simp+
  have f2: "run_through (board four_black_game) BLACK_STONE 4 DiagonalUp 3 11"
    by code_simp
  have r2: "\<not> list_ex (\<lambda>a. run_on_line (board four_black_game) BLACK_STONE 5 a 3 11) axes"
    by code_simp
  have full: "\<not> board_is_full (board four_black_game)" by code_simp
  have clean: "\<forall>u v. no_outside u v \<noteq> Some (stone three_game)"
    by (simp add: no_outside_def)
  from five_in_a_row_wins [OF ok1 x1 y1 e1 p1] s1 c1 r1
  have w1: "state five_game = GAME_STATE_FINISHED \<and> winner five_game = stone four_game"
    by simp
  from five_in_a_row_wins [OF ok2 x2 y2 e2 p2] s2 c2 r2 clean full
  have w2: "winner four_black_game = winner three_game
            \<and> state four_black_game = state three_game"
    by simp
  from p1 r1 w1 p2 f2 r2 w2 show ?thesis by simp
qed

text \<open>
  The claim as it is written speaks of every placement and of runs through the placed
  stone, and there its second part fails. The win checks scan the whole column, row and
  diagonals of the stone, and \<^verbatim>\<open>game_place_stone\<close> can be called after a win. In
  \<open>two_fives_game\<close> White is the winner; Black's stone on \<open>(10, 14)\<close> touches no other
  black stone, the scan of the bottom row finds Black's five at its left end, and Black
  is the winner. In this call no read leaves the grid.
\<close>

theorem lone_stone_wins_counterexample:
  "place_all empty_outside new_game_15
      [(0, 14), (14, 0), (1, 14), (14, 1), (2, 14), (14, 2), (3, 14), (14, 3), (4, 14),
       (7, 7), (14, 4), (8, 8)]
     = Inr two_fives_game
   \<and> reachable two_fives_game
   \<and> winner two_fives_game = WHITE_STONE
   \<and> game_place_stone no_outside two_fives_game 10 14 = Inr (True, lone_stone_game)
   \<and> \<not> list_ex (\<lambda>a. run_through (board lone_stone_game) BLACK_STONE 2 a 10 14) axes
   \<and> state lone_stone_game = GAME_STATE_FINISHED
   \<and> winner lone_stone_game = BLACK_STONE"
proof -
  have p: "place_all empty_outside new_game_15
      [(0, 14), (14, 0), (1, 14), (14, 1), (2, 14), (14, 2), (3, 14), (14, 3), (4, 14),
       (7, 7), (14, 4), (8, 8)]
     = Inr two_fives_game"
    by code_simp
  have r: "reachable two_fives_game"
    using reachable_place_all [OF reachable.created [OF new_game_15_created] p] .
  have w: "winner two_fives_game = WHITE_STONE" by code_simp
  have q: "game_place_stone no_outside two_fives_game 10 14 = Inr (True, lone_stone_game)"
    by code_simp
  have n: "\<not> list_ex (\<lambda>a. run_through (board lone_stone_game) BLACK_STONE 2 a 10 14) axes"
    by code_simp
  have e: "state lone_stone_game = GAME_STATE_FINISHED \<and> winner lone_stone_game = BLACK_STONE"
    by code_simp
  from p r w q n e show ?thesis by simp
qed

text \<open>
  The condition on the bytes behind the grid cannot be dropped either. Black's stone on
  \<open>(3, 0)\<close> makes four in a row up to the top edge; \<^verbatim>\<open>diagonalUpWin\<close> goes on to read
  \<open>(4, 255)\<close>, and when that byte is a 1 it counts five: the game is finished and Black
  has won, in a game that was being played, with four in a row.
\<close>

lemma four_at_edge_wins_with_outside_byte:
  "play empty_outside new_game_15 [(0, 3), (0, 14), (1, 2), (2, 14), (2, 1), (4, 14)]
     = Inr (three_at_edge_game\<lparr>state := GAME_STATE_STOPPED\<rparr>)
   \<and> game_place_stone black_byte_outside three_at_edge_game 3 0 = Inr (True, four_at_edge_game)
   \<and> run_through (board four_at_edge_game) BLACK_STONE 4 DiagonalUp 3 0
   \<and> \<not> list_ex (\<lambda>a. run_on_line (board four_at_edge_game) BLACK_STONE 5 a 3 0) axes
   \<and> state four_at_edge_game = GAME_STATE_FINISHED
   \<and> winner four_at_edge_game = BLACK_STONE"
  by code_simp

text \<open>
  In a game of the game loop that is still being played the claim holds in its own words,
  for the scans of the grid: no five stood on the board before, so a stone that lies in
  no run of five wins nothing. The state stays Playing, or the board is full, or the move
  is Black's in Renju and more than one open four was counted.
\<close>

lemma four_or_fewer_no_win_in_play:
  assumes pg: "played_on_grid g" and playing: "state g = GAME_STATE_PLAYING"
    and x: "x < size_b (board g)" and y: "y < size_b (board g)"
    and empty: "grid (board g) ! cell_index (board g) x y = EMPTY_INTERSECTION"
    and place: "game_place_stone ob g x y = Inr (r, g')"
    and clean: "\<forall>u v. ob u v \<noteq> Some (stone g)"
    and four: "\<not> list_ex (\<lambda>a. run_through (board g') (stone g) 5 a x y) axes"
  shows "winner g' = EMPTY_INTERSECTION
           \<and> (state g' = GAME_STATE_PLAYING
                \<or> state g' = GAME_STATE_FINISHED \<and> board_is_full (board g'))
         \<or> type g = GAME_RENJU \<and> stone g = BLACK_STONE
           \<and> state g' = GAME_STATE_FORBIDDEN \<and> winner g' = WHITE_STONE"
proof -
  from played_on_grid_invariant [OF pg] playing have ok: "board_ok (board g)"
    and nf: "\<And>s. s \<noteq> EMPTY_INTERSECTION \<Longrightarrow> \<not> five_on_board (board g) s"
    by simp_all
  have len: "length (grid (board g)) = unat (size_b (board g)) * unat (size_b (board g))"
    using ok by (simp add: board_ok_def)
  have win: "winner g = EMPTY_INTERSECTION"
    using played_winner [OF played_on_grid_played [OF pg]] playing by simp
  have "board_get ob (board g) x y = Inr EMPTY_INTERSECTION"
    using x y empty by (simp add: board_get_inside)
  with place obtain g3 where p: "put_stone g x y = Inr g3"
    and q: "apply_rules ob g3 x y = Inr g'"
    by (auto simp: game_place_stone_def split: sum.splits)
  note g3 = put_stone_cases [OF p]
  have b: "board g' = (board g)\<lparr>grid := (grid (board g))[cell_index (board g) x y := stone g]\<rparr>"
    using apply_rules_keeps [OF q] g3 by simp
  have s: "stone g \<noteq> EMPTY_INTERSECTION" using g3 by auto
  have norun: "\<not> list_ex (\<lambda>a. run_on_line (board g') (stone g) 5 a x y) axes"
  proof
    assume "list_ex (\<lambda>a. run_on_line (board g') (stone g) 5 a x y) axes"
    then obtain a where a: "a \<in> set axes" and r: "run_on_line (board g') (stone g) 5 a x y"
      unfolding list_ex_iff by blast
    from run_on_line_cases [OF len x y r [unfolded b]] nf [OF s]
    have "run_through (board g') (stone g) 5 a x y" unfolding b by simp
    with a four show False unfolding list_ex_iff by blast
  qed
  from no_five_no_win [OF ok x y empty place clean norun] win playing
  show ?thesis by (auto split: if_splits)
qed

lemma four_or_fewer_no_win_in_play_example:
  "played_on_grid three_game \<and> state three_game = GAME_STATE_PLAYING
   \<and> game_place_stone no_outside three_game 3 11 = Inr (True, four_black_game)
   \<and> \<not> list_ex (\<lambda>a. run_through (board four_black_game) BLACK_STONE 5 a 3 11) axes
   \<and> winner four_black_game = EMPTY_INTERSECTION
   \<and> state four_black_game = GAME_STATE_PLAYING"
proof -
  have c: "played_on_grid new_game_15"
    using played_on_grid.created [OF new_game_15_created] .
  have s0: "state new_game_15 = GAME_STATE_PLAYING" by code_simp
  have 1: "played_on_grid (game_with GAME_FREESTYLE (take 1 three_on_diagonal) WHITE_STONE
      GAME_STATE_PLAYING EMPTY_INTERSECTION)"
    by (rule played_on_grid.placed [OF c s0, of 0 14 no_outside True]) code_simp+
  have 2: "played_on_grid (game_with GAME_FREESTYLE (take 2 three_on_diagonal) BLACK_STONE
      GAME_STATE_PLAYING EMPTY_INTERSECTION)"
    by (rule played_on_grid.placed [OF 1, of 14 0 no_outside True]) code_simp+
  have 3: "played_on_grid (game_with GAME_FREESTYLE (take 3 three_on_diagonal) WHITE_STONE
      GAME_STATE_PLAYING EMPTY_INTERSECTION)"
    by (rule played_on_grid.placed [OF 2, of 1 13 no_outside True]) code_simp+
  have 4: "played_on_grid (game_with GAME_FREESTYLE (take 4 three_on_diagonal) BLACK_STONE
      GAME_STATE_PLAYING EMPTY_INTERSECTION)"
    by (rule played_on_grid.placed [OF 3, of 13 1 no_outside True]) code_simp+
  have 5: "played_on_grid (game_with GAME_FREESTYLE (take 5 three_on_diagonal) WHITE_STONE
      GAME_STATE_PLAYING EMPTY_INTERSECTION)"
    by (rule played_on_grid.placed [OF 4, of 2 12 no_outside True]) code_simp+
  have "played_on_grid (game_with GAME_FREESTYLE (take 6 three_on_diagonal) BLACK_STONE
      GAME_STATE_PLAYING EMPTY_INTERSECTION)"
    by (rule played_on_grid.placed [OF 5, of 12 2 no_outside True]) code_simp+
  moreover have "game_with GAME_FREESTYLE (take 6 three_on_diagonal) BLACK_STONE
      GAME_STATE_PLAYING EMPTY_INTERSECTION = three_game"
    by code_simp
  ultimately have pg: "played_on_grid three_game" by simp
  have st: "state three_game = GAME_STATE_PLAYING" by code_simp
  have x: "3 < size_b (board three_game)" and y: "11 < size_b (board three_game)"
    by code_simp+
  have e: "grid (board three_game) ! cell_index (board three_game) 3 11 = EMPTY_INTERSECTION"
    by code_simp
  have p: "game_place_stone no_outside three_game 3 11 = Inr (True, four_black_game)"
    by code_simp
  have clean: "\<forall>u v. no_outside u v \<noteq> Some (stone three_game)"
    by (simp add: no_outside_def)
  have c2: "stone three_game = BLACK_STONE" and ty: "type three_game = GAME_FREESTYLE"
    by code_simp+
  have r: "\<not> list_ex (\<lambda>a. run_through (board four_black_game) BLACK_STONE 5 a 3 11) axes"
    by code_simp
  have full: "\<not> board_is_full (board four_black_game)" by code_simp
  from four_or_fewer_no_win_in_play [OF pg st x y e p clean] r c2 ty full
  have "winner four_black_game = EMPTY_INTERSECTION
        \<and> state four_black_game = GAME_STATE_PLAYING"
    by simp
  with pg st p r show ?thesis by simp
qed

section \<open>The overline rule of Renju\<close>

text \<open>
  What holds of the overline rule. Take a placement by Black in a Renju game, on an empty
  cell of a well-formed board, that returns. When the stone lies in a run of six black
  stones along one of the four axes, the state is \<^verbatim>\<open>GAME_STATE_FORBIDDEN\<close> and White has
  won, whatever the game was before and whatever lies behind the grid. In general, with
  \<open>g3\<close> the game that holds the new stone: when the line-win check fires, the result
  of \<^verbatim>\<open>overline\<close> decides between Forbidden with White as winner and Finished with Black
  as winner; when it does not fire and the winner was not Black before the call, the
  result does not depend on \<^verbatim>\<open>overline\<close>: the state and the winner stay as they
  were, or more than one open four was counted and the result is Forbidden with White as
  winner.
\<close>

lemma six_in_a_row_forbidden:
  assumes ok: "board_ok (board g)"
    and x: "x < size_b (board g)" and y: "y < size_b (board g)"
    and empty: "grid (board g) ! cell_index (board g) x y = EMPTY_INTERSECTION"
    and renju: "type g = GAME_RENJU" and black: "stone g = BLACK_STONE"
    and place: "game_place_stone ob g x y = Inr (r, g')"
  shows "(list_ex (\<lambda>a. run_through (board g') BLACK_STONE 6 a x y) axes \<longrightarrow>
          state g' = GAME_STATE_FORBIDDEN \<and> winner g' = WHITE_STONE)
       \<and> (\<exists>g3. put_stone g x y = Inr g3
            \<and> (line_win ob g3 x y = Inr True \<longrightarrow>
                 (overline ob g3 x y = Inr True \<longrightarrow>
                    state g' = GAME_STATE_FORBIDDEN \<and> winner g' = WHITE_STONE)
                 \<and> (overline ob g3 x y = Inr False \<longrightarrow>
                    state g' = GAME_STATE_FINISHED \<and> winner g' = BLACK_STONE))
            \<and> (line_win ob g3 x y = Inr False \<longrightarrow> winner g \<noteq> BLACK_STONE \<longrightarrow>
                 state g' = state g \<and> winner g' = winner g
                 \<or> state g' = GAME_STATE_FORBIDDEN \<and> winner g' = WHITE_STONE
                    \<and> (\<exists>n. open_fours ob g3 x y = Inr n \<and> n > ALLOWED_OPEN_FOURS)))"
proof -
  have "board_get ob (board g) x y = Inr EMPTY_INTERSECTION"
    using x y empty by (simp add: board_get_inside)
  with place obtain g3 where p: "put_stone g x y = Inr g3"
    and q: "apply_rules ob g3 x y = Inr g'"
    by (auto simp: game_place_stone_def split: sum.splits)
  note g3 = put_stone_cases [OF p]
  note ok3 = put_stone_board_ok [OF p ok]
  have b: "board g' = board g3" using apply_rules_keeps [OF q] by simp
  have x3: "x < size_b (board g3)" and y3: "y < size_b (board g3)" using x y ok3(2) by simp_all
  have ty: "type g3 = GAME_RENJU" and st: "stone g3 = BLACK_STONE" using g3 renju black by simp_all
  note q' = q [unfolded apply_rules_renju_black [OF ty st]]
  have ov: "overline ob (g3\<lparr>winner := BLACK_STONE, state := GAME_STATE_FINISHED\<rparr>) x y
            = overline ob g3 x y"
    by (rule overline_cong) simp_all
  have won_true: "state g' = GAME_STATE_FORBIDDEN \<and> winner g' = WHITE_STONE"
    if "line_win ob g3 x y = Inr True" and "overline ob g3 x y = Inr True"
    using q' that ov st by (auto simp add: doubleOpenFours_won)
  have won_false: "state g' = GAME_STATE_FINISHED \<and> winner g' = BLACK_STONE"
    if "line_win ob g3 x y = Inr True" and "overline ob g3 x y = Inr False"
    using q' that ov st by (auto simp add: doubleOpenFours_won)
  have won_some: "\<exists>over. overline ob g3 x y = Inr over" if "line_win ob g3 x y = Inr True"
    using q' that ov st by (auto simp add: doubleOpenFours_won split: sum.splits)
  have lost_case: "state g' = state g \<and> winner g' = winner g
                 \<or> state g' = GAME_STATE_FORBIDDEN \<and> winner g' = WHITE_STONE
                    \<and> (\<exists>n. open_fours ob g3 x y = Inr n \<and> n > ALLOWED_OPEN_FOURS)"
    if l: "line_win ob g3 x y = Inr False" and nb: "winner g \<noteq> BLACK_STONE"
  proof -
    from q' l obtain n where n: "open_fours ob g3 x y = Inr n"
      by (cases "open_fours ob g3 x y") (simp_all add: doubleOpenFours_lost)
    show ?thesis
    proof (cases "n > ALLOWED_OPEN_FOURS")
      case True
      then show ?thesis using q' l n by (auto simp: doubleOpenFours_lost)
    next
      case False
      then show ?thesis using q' l n nb g3 by (auto simp: doubleOpenFours_lost)
    qed
  qed
  have six: "state g' = GAME_STATE_FORBIDDEN \<and> winner g' = WHITE_STONE"
    if run: "list_ex (\<lambda>a. run_through (board g') BLACK_STONE 6 a x y) axes"
  proof -
    from run obtain a where r6: "run_through (board g3) (stone g3) 6 a x y"
      using b st by (auto simp: list_ex_iff)
    then have "run_through (board g3) (stone g3) (Suc 5) a x y" by simp
    from run_through_shorter [OF this] have r5: "run_through (board g3) (stone g3) 5 a x y"
      by simp
    from q' obtain g4 where d: "doubleOpenFours ob g3 x y = Inr g4"
      by (cases "doubleOpenFours ob g3 x y") simp_all
    then obtain won where w: "line_win ob g3 x y = Inr won"
      by (cases "line_win ob g3 x y") (simp_all add: doubleOpenFours_def)
    from line_win_finds [OF ok3(1) x3 y3 r5, of ob] w have won: "line_win ob g3 x y = Inr True"
      by simp
    from won_some [OF won] obtain over where o: "overline ob g3 x y = Inr over" ..
    from overline_finds [OF ok3(1) x3 y3 r6, of ob] o have "overline ob g3 x y = Inr True" by simp
    from won_true [OF won this] show ?thesis .
  qed
  show ?thesis
  proof (intro conjI impI)
    assume "list_ex (\<lambda>a. run_through (board g') BLACK_STONE 6 a x y) axes"
    then show "state g' = GAME_STATE_FORBIDDEN" "winner g' = WHITE_STONE"
      using six by simp_all
  next
    show "\<exists>g3. put_stone g x y = Inr g3
            \<and> (line_win ob g3 x y = Inr True \<longrightarrow>
                 (overline ob g3 x y = Inr True \<longrightarrow>
                    state g' = GAME_STATE_FORBIDDEN \<and> winner g' = WHITE_STONE)
                 \<and> (overline ob g3 x y = Inr False \<longrightarrow>
                    state g' = GAME_STATE_FINISHED \<and> winner g' = BLACK_STONE))
            \<and> (line_win ob g3 x y = Inr False \<longrightarrow> winner g \<noteq> BLACK_STONE \<longrightarrow>
                 state g' = state g \<and> winner g' = winner g
                 \<or> state g' = GAME_STATE_FORBIDDEN \<and> winner g' = WHITE_STONE
                    \<and> (\<exists>n. open_fours ob g3 x y = Inr n \<and> n > ALLOWED_OPEN_FOURS))"
      using p won_true won_false lost_case by (intro exI [of _ g3]) simp
  qed
qed

lemma six_in_a_row_forbidden_example:
  "game_place_stone no_outside split_five_game 3 11 = Inr (True, six_game)
   \<and> list_ex (\<lambda>a. run_through (board six_game) BLACK_STONE 6 a 3 11) axes
   \<and> state six_game = GAME_STATE_FORBIDDEN \<and> winner six_game = WHITE_STONE
   \<and> place_all empty_outside renju_new_15
        [(0, 14), (0, 0), (1, 13), (2, 0), (2, 12), (4, 0), (4, 10), (6, 0), (5, 9), (8, 0)]
      = Inr split_five_game"
proof -
  have ok: "board_ok (board split_five_game)" by code_simp
  have x: "3 < size_b (board split_five_game)" and y: "11 < size_b (board split_five_game)"
    by code_simp+
  have e: "grid (board split_five_game) ! cell_index (board split_five_game) 3 11
           = EMPTY_INTERSECTION"
    by code_simp
  have t: "type split_five_game = GAME_RENJU" and c: "stone split_five_game = BLACK_STONE"
    by code_simp+
  have p: "game_place_stone no_outside split_five_game 3 11 = Inr (True, six_game)"
    by code_simp
  have r: "list_ex (\<lambda>a. run_through (board six_game) BLACK_STONE 6 a 3 11) axes"
    by code_simp
  have h: "place_all empty_outside renju_new_15
        [(0, 14), (0, 0), (1, 13), (2, 0), (2, 12), (4, 0), (4, 10), (6, 0), (5, 9), (8, 0)]
      = Inr split_five_game"
    by code_simp
  from six_in_a_row_forbidden [OF ok x y e t c p] r
  have "state six_game = GAME_STATE_FORBIDDEN \<and> winner six_game = WHITE_STONE"
    by blast
  with p r h show ?thesis by simp
qed

text \<open>
  \<^verbatim>\<open>overline\<close> sets its counter to 0 before the vertical and before the horizontal loop
  and not before the two diagonal loops, so a count left at the end of the row goes on
  along the diagonals. In \<open>exact_five_game\<close>, a game played move by move, Black's five
  ends at the right edge of row 2; the count of five is carried to the diagonal from
  \<open>(12, 0)\<close>, whose first stone makes it six: Black's five in a row, with no six on
  any line through the stone, is Forbidden with White as winner.
\<close>

lemma exact_five_forbidden:
  "play empty_outside renju_new_15
      [(12, 0), (0, 14), (10, 2), (2, 14), (11, 2), (4, 14), (12, 2), (6, 14), (13, 2),
       (8, 14), (14, 2)]
     = Inr exact_five_game
   \<and> run_through (board exact_five_game) BLACK_STONE 5 Horizontal 14 2
   \<and> \<not> list_ex (\<lambda>a. run_on_line (board exact_five_game) BLACK_STONE 6 a 14 2) axes
   \<and> overline empty_outside exact_five_game 14 2 = Inr True
   \<and> state exact_five_game = GAME_STATE_FORBIDDEN
   \<and> winner exact_five_game = WHITE_STONE"
  by code_simp

text \<open>
  C4. The claim: the overline check is evaluated only when the line-win check has fired
  for Black, and there it turns Black's win into Forbidden with White as winner. The
  code tests the field \<^verbatim>\<open>g->winner\<close>, not the result of the line-win check, and
  \<^verbatim>\<open>game_import\<close> and \<^verbatim>\<open>game_replay\<close> store the winner of the saved game before they
  place its stones. In the replay of \<open>black_wins_game\<close>, a game that Black won, the ninth
  stone on \<open>(14, 2)\<close> completes no five and the line-win check does not fire;
  \<^verbatim>\<open>overline\<close> is called all the same, counts three stones at the end of row 2 and three
  more on the diagonal without a reset between them, and returns true: the replayed game
  is in the state Forbidden with White as winner, with no five in a row on the board.
\<close>

theorem overline_without_line_win:
  "play empty_outside renju_new_15
      [(12, 0), (0, 14), (13, 1), (2, 14), (12, 2), (4, 14), (13, 2), (6, 14), (14, 2),
       (8, 14), (11, 2), (10, 14), (10, 2)]
     = Inr black_wins_game
   \<and> winner black_wins_game = BLACK_STONE
   \<and> place_all empty_outside replay_start
        [(12, 0), (0, 14), (13, 1), (2, 14), (12, 2), (4, 14), (13, 2), (6, 14)]
      = Inr replay_game
   \<and> put_stone replay_game 14 2 = Inr replay_stone_game
   \<and> line_win empty_outside replay_stone_game 14 2 = Inr False
   \<and> overline empty_outside replay_stone_game 14 2 = Inr True
   \<and> game_place_stone empty_outside replay_game 14 2
       = Inr (True, replay_stone_game\<lparr>winner := WHITE_STONE, state := GAME_STATE_FORBIDDEN\<rparr>)
   \<and> \<not> five_on_board (board replay_stone_game) BLACK_STONE"
  by code_simp

section \<open>The double four rule of Renju\<close>

lemma forbidden_by_count:
  assumes "line_win ob g x y = Inr False" and "open_fours ob g x y = Inr n"
  shows "doubleOpenFours ob g x y =
     Inr (if n > ALLOWED_OPEN_FOURS
          then g\<lparr>state := GAME_STATE_FORBIDDEN, winner := WHITE_STONE\<rparr> else g)"
  using assms by (simp add: doubleOpenFours_lost)

text \<open>
  C1. The claim: a black stone in Renju that completes no five but two open fours on two
  axes ends the game with state Forbidden and winner White. The count of open fours is
  indeed summed over the four loops and compared with 1 (\<open>forbidden_by_count\<close>), and the
  two diagonal loops test the cells before and after the run. The vertical loop tests
  \<^verbatim>\<open>(x + 1, i)\<close> and \<^verbatim>\<open>(x - connections, i)\<close>, the cells to the right and four to the
  left of the lowest stone of the run, and the horizontal loop tests \<^verbatim>\<open>(j, y + 1)\<close> and
  \<^verbatim>\<open>(j, y - connections)\<close>, the cells below and four above the last stone of the run.
  In \<open>two_threes_game\<close> Black's stone on \<open>(7, 7)\<close> completes an open four in the column
  and an open four in the row and no five; the code counts one open four, and the game
  goes on with White to move.
\<close>

theorem double_open_four_not_detected:
  "play empty_outside renju_new_15
      [(7, 4), (1, 0), (7, 5), (3, 0), (7, 6), (5, 0), (8, 7), (9, 0), (9, 7), (11, 0),
       (10, 7), (13, 0), (7, 7)]
     = Inr (two_fours_game\<lparr>state := GAME_STATE_STOPPED\<rparr>)
   \<and> game_place_stone no_outside two_threes_game 7 7 = Inr (True, two_fours_game)
   \<and> open_four_through (board two_fours_game) BLACK_STONE Vertical 7 7
   \<and> open_four_through (board two_fours_game) BLACK_STONE Horizontal 7 7
   \<and> \<not> list_ex (\<lambda>a. run_through (board two_fours_game) BLACK_STONE 5 a 7 7) axes
   \<and> open_fours no_outside (two_fours_game\<lparr>stone := BLACK_STONE\<rparr>) 7 7 = Inr 1
   \<and> state two_fours_game = GAME_STATE_PLAYING
   \<and> winner two_fours_game = EMPTY_INTERSECTION"
  by code_simp

section \<open>The full board\<close>

text \<open>
  C5. The claim: whenever a placement fills the board without a win, the game is finished
  and drawn, in either type of game and for either colour. For every placement but
  Black's in Renju the code tests \<^verbatim>\<open>board_is_full\<close>; the branch for Black in Renju
  does not. In \<open>full_but_one\<close> Black's stone on \<open>(0, 14)\<close> fills the board, no line holds
  five, and the game stays in the state Playing with White to move. The same placement
  in a freestyle game finishes the game.
\<close>

theorem renju_full_board_not_finished:
  "game_place_stone no_outside full_but_one 0 14 = Inr (True, full_game)
   \<and> board_is_full (board full_game)
   \<and> stones_on (board full_game) = 225
   \<and> line_win no_outside (full_game\<lparr>stone := BLACK_STONE\<rparr>) 0 14 = Inr False
   \<and> state full_game = GAME_STATE_PLAYING
   \<and> game_place_stone no_outside (full_but_one\<lparr>type := GAME_FREESTYLE\<rparr>) 0 14
       = Inr (True, full_game\<lparr>type := GAME_FREESTYLE, stone := BLACK_STONE,
                               state := GAME_STATE_FINISHED\<rparr>)"
  by code_simp

section \<open>Formal coordinates\<close>

text \<open>
  \<^verbatim>\<open>board_formal_coord\<close> followed by \<^verbatim>\<open>board_coord\<close> gives back the coordinates
  when the row number has one digit, or when byte 3 of the buffer was NUL before the call.
\<close>

lemma board_coord_grid:
  "board_coord b = board_coord \<lparr>size_b = size_b b, grid = []\<rparr>"
  by (rule ext) (simp add: board_coord_def split: list.splits option.splits prod.splits)

lemma board_formal_coord_grid:
  "board_formal_coord b = board_formal_coord \<lparr>size_b = size_b b, grid = []\<rparr>"
  by (rule ext)+ (simp add: board_formal_coord_def)

lemma parse_formal_grid:
  "parse_formal b x y buf = parse_formal \<lparr>size_b = size_b b, grid = []\<rparr> x y buf"
  unfolding parse_formal_def board_coord_grid [of b] board_formal_coord_grid [of b] ..

lemma parse_formal_all_15:
  "list_all (\<lambda>X. list_all (\<lambda>Y.
       parse_formal \<lparr>size_b = 15, grid = []\<rparr> (of_nat X) (of_nat Y) zero_buffer
         = Inr (of_nat X, of_nat Y)) [0..<15]) [0..<15]"
  by code_simp

lemma parse_formal_all_17:
  "list_all (\<lambda>X. list_all (\<lambda>Y.
       parse_formal \<lparr>size_b = 17, grid = []\<rparr> (of_nat X) (of_nat Y) zero_buffer
         = Inr (of_nat X, of_nat Y)) [0..<17]) [0..<17]"
  by code_simp

lemma parse_formal_all_19:
  "list_all (\<lambda>X. list_all (\<lambda>Y.
       parse_formal \<lparr>size_b = 19, grid = []\<rparr> (of_nat X) (of_nat Y) zero_buffer
         = Inr (of_nat X, of_nat Y)) [0..<19]) [0..<19]"
  by code_simp

lemma parse_formal_zero_buffer:
  assumes ok: "board_ok b" and x: "x < size_b b" and y: "y < size_b b"
  shows "parse_formal b x y zero_buffer = Inr (x, y)"
proof -
  have X: "unat x < unat (size_b b)" and Y: "unat y < unat (size_b b)"
    using x y by (simp_all add: word_less_nat_alt)
  have "parse_formal \<lparr>size_b = size_b b, grid = []\<rparr> (of_nat (unat x)) (of_nat (unat y)) zero_buffer
          = Inr (of_nat (unat x), of_nat (unat y))"
  proof -
    from ok consider "size_b b = 15" | "size_b b = 17" | "size_b b = 19"
      by (auto simp: board_ok_def)
    then show ?thesis
    proof cases
      case sz: 1
      have "\<And>X Y. X < 15 \<Longrightarrow> Y < 15 \<Longrightarrow>
          parse_formal \<lparr>size_b = 15, grid = []\<rparr> (of_nat X) (of_nat Y) zero_buffer
            = Inr (of_nat X, of_nat Y)"
        using parse_formal_all_15 by (simp add: list_all_iff)
      from this [of "unat x" "unat y"] X Y sz show ?thesis by simp
    next
      case sz: 2
      have "\<And>X Y. X < 17 \<Longrightarrow> Y < 17 \<Longrightarrow>
          parse_formal \<lparr>size_b = 17, grid = []\<rparr> (of_nat X) (of_nat Y) zero_buffer
            = Inr (of_nat X, of_nat Y)"
        using parse_formal_all_17 by (simp add: list_all_iff)
      from this [of "unat x" "unat y"] X Y sz show ?thesis by simp
    next
      case sz: 3
      have "\<And>X Y. X < 19 \<Longrightarrow> Y < 19 \<Longrightarrow>
          parse_formal \<lparr>size_b = 19, grid = []\<rparr> (of_nat X) (of_nat Y) zero_buffer
            = Inr (of_nat X, of_nat Y)"
        using parse_formal_all_19 by (simp add: list_all_iff)
      from this [of "unat x" "unat y"] X Y sz show ?thesis by simp
    qed
  qed
  then show ?thesis by (subst parse_formal_grid) simp
qed

lemma parse_formal_buffer:
  assumes len: "length buf = 4" and x: "x < size_b b" and y: "y < size_b b"
    and last: "buf ! 3 = NUL \<or> size_b b - y < LOWEST_TWO_DIGITS"
  shows "parse_formal b x y buf = parse_formal b x y zero_buffer"
proof -
  from len obtain b0 b1 b2 b3 where buf: "buf = [b0, b1, b2, b3]"
    by (cases buf; simp; cases "tl buf"; simp; cases "tl (tl buf)"; simp;
        cases "tl (tl (tl buf))"; simp)
  have nx: "\<not> x \<ge> size_b b" "\<not> y \<ge> size_b b" using x y by simp_all
  show ?thesis
  proof (cases "size_b b - y < LOWEST_TWO_DIGITS")
    case True
    then show ?thesis using nx
      by (simp add: parse_formal_def board_formal_coord_def Let_def buf zero_buffer_def
          c_string_def List.member_iff)
  next
    case False
    with last have "b3 = NUL" by (simp add: buf)
    then show ?thesis using nx False
      by (simp add: parse_formal_def board_formal_coord_def Let_def buf zero_buffer_def
          c_string_def List.member_iff)
  qed
qed

lemma formal_coord_round_trip:
  assumes "board_ok b" and "x < size_b b" and "y < size_b b"
    and "length buf = 4" and "buf ! 3 = NUL \<or> size_b b - y < LOWEST_TWO_DIGITS"
  shows "parse_formal b x y buf = Inr (x, y)"
  using parse_formal_buffer [OF assms(4) assms(2) assms(3) assms(5)]
    parse_formal_zero_buffer [OF assms(1) assms(2) assms(3)]
  by simp


text \<open>
  C8. The claim: \<^verbatim>\<open>board_coord\<close> accepts exactly the texts of a letter and a row number
  and rejects a row number followed by anything else. The code reads the row with
  \<^verbatim>\<open>%d\<close> and does not look at what follows the digits, nor does it refuse a sign or
  white space before them: on a board of size 15 it accepts \<^verbatim>\<open>A1x\<close> as \<open>(0, 14)\<close>, and
  \<^verbatim>\<open>A+5\<close> and \<^verbatim>\<open>A 5\<close> as \<open>(0, 10)\<close>.
\<close>

theorem board_coord_accepts_trailing_text:
  "board_coord (board new_game_15) ''A1x'' = Inr (0, 14)
   \<and> \<not> spec_valid_coordinate (board new_game_15) ''A1x''
   \<and> board_coord (board new_game_15) ''A+5'' = Inr (0, 10)
   \<and> \<not> spec_valid_coordinate (board new_game_15) ''A+5''
   \<and> board_coord (board new_game_15) ''A 5'' = Inr (0, 10)
   \<and> \<not> spec_valid_coordinate (board new_game_15) ''A 5''"
  by code_simp

text \<open>
  C6. The claim: parsing the formal coordinate produced for \<open>(x, y)\<close> gives \<open>(x, y)\<close>
  back. For a row number of two digits \<^verbatim>\<open>board_formal_coord\<close> writes three characters
  and no terminating NUL (for one digit it writes the NUL), so the text depends on what
  the fourth byte of the caller's buffer held before. On a board of size 15 with a buffer
  of four bytes \<^verbatim>\<open>XXXX\<close>, the coordinate of \<open>(0, 0)\<close> is \<^verbatim>\<open>A15X\<close> without an end; with a
  NUL behind the buffer it is the text \<^verbatim>\<open>A15X\<close>, which \<^verbatim>\<open>board_coord\<close> rejects. With
  a buffer of zeros, and for the one-digit row of \<open>(14, 14)\<close>, the round trip holds.
\<close>

theorem formal_coord_not_terminated:
  "parse_formal (board new_game_15) 0 0 ''XXXX'' = Inl OUT_OF_RANGE
   \<and> board_formal_coord (board new_game_15) 0 0 (''XXXX'' @ [NUL]) = Inr (''A15X'' @ [NUL])
   \<and> parse_formal (board new_game_15) 0 0 (''XXXX'' @ [NUL]) = Inl FORMAL_COORDINATE_ERR
   \<and> parse_formal (board new_game_15) 0 0 zero_buffer = Inr (0, 0)
   \<and> parse_formal (board new_game_15) 14 14 ''XXXX'' = Inr (14, 14)"
  by code_simp

section \<open>Saving and loading a game\<close>

text \<open>
  C2. The claim: a game that legal moves produced is the same game after export and
  import, in its board, type, state and winner. \<^verbatim>\<open>game_import\<close> stores the winner of
  the file before it places the moves again, so for a game that Black has won in Renju
  \<^verbatim>\<open>overline\<close> is called at every black stone; and \<^verbatim>\<open>overline\<close> does not reset its
  counter between the horizontal and the diagonal loops. In \<open>black_wins_game\<close> the
  replay of Black's stone on \<open>(14, 2)\<close> counts three stones at the end of row 2 and three
  on the diagonal, six in all: the imported game is in the state Forbidden with White as
  winner, the four stones placed after it have the other colour, and the board differs.
\<close>

theorem import_of_export_differs:
  "play empty_outside renju_new_15
      [(12, 0), (0, 14), (13, 1), (2, 14), (12, 2), (4, 14), (13, 2), (6, 14), (14, 2),
       (8, 14), (11, 2), (10, 14), (10, 2)]
     = Inr black_wins_game
   \<and> played black_wins_game
   \<and> (case game_export zero_buffer black_wins_game of
         Inl e \<Rightarrow> False
       | Inr saved \<Rightarrow> game_import empty_outside saved = Inr reloaded_game)
   \<and> state black_wins_game = GAME_STATE_FINISHED \<and> state reloaded_game = GAME_STATE_FORBIDDEN
   \<and> winner black_wins_game = BLACK_STONE \<and> winner reloaded_game = WHITE_STONE
   \<and> board reloaded_game \<noteq> board black_wins_game"
proof -
  have p: "play empty_outside renju_new_15
      [(12, 0), (0, 14), (13, 1), (2, 14), (12, 2), (4, 14), (13, 2), (6, 14), (14, 2),
       (8, 14), (11, 2), (10, 14), (10, 2)]
     = Inr black_wins_game"
    by code_simp
  have q: "played black_wins_game"
    using played_play [OF played.created [OF renju_new_15_created] p] .
  have i: "(case game_export zero_buffer black_wins_game of
         Inl e \<Rightarrow> False
       | Inr saved \<Rightarrow> game_import empty_outside saved = Inr reloaded_game)"
    by code_simp
  have r: "state black_wins_game = GAME_STATE_FINISHED \<and> state reloaded_game = GAME_STATE_FORBIDDEN
   \<and> winner black_wins_game = BLACK_STONE \<and> winner reloaded_game = WHITE_STONE
   \<and> board reloaded_game \<noteq> board black_wins_game"
    by code_simp
  from p q i r show ?thesis by simp
qed

end
